theory Spec2Isabelle
  imports Main "HOL-Library.Extended_Nat"
begin

section \<open>The A* path finding visualiser: data model\<close>

text \<open>
  The development embeds \<^verbatim>\<open>a_star_visualiser.py\<close>. Python exceptions are values of
  \<open>py_error\<close>; a function that can raise returns \<open>py_error + 'a\<close>.
\<close>

datatype py_error = IndexError | KeyError | ZeroDivisionError | AttributeError

text \<open>
  The dictionary \<^verbatim>\<open>colors\<close> maps ten names to RGB triples. A node stores one of these
  triples; since the table is injective (lemma \<open>rgb_inj\<close> below) the model stores the name
  and \<open>rgb\<close> gives the triple.
\<close>

datatype color = White | Gray | Black | Red | Green | Blue | Turquoise | Purple | Yellow | Orange

fun rgb :: "color \<Rightarrow> nat \<times> nat \<times> nat" where
  "rgb White = (255, 255, 255)"
| "rgb Gray = (128, 128, 128)"
| "rgb Black = (0, 0, 0)"
| "rgb Red = (255, 0, 0)"
| "rgb Green = (0, 255, 0)"
| "rgb Blue = (0, 0, 255)"
| "rgb Turquoise = (0, 255, 255)"
| "rgb Purple = (255, 0, 255)"
| "rgb Yellow = (255, 255, 0)"
| "rgb Orange = (255, 200, 0)"

text \<open>
  \<^verbatim>\<open>Node.states\<close>, read from state name to colour (the only direction the program uses).
\<close>

datatype state_name = Closed | Open | Barrier | Start | End | Path

fun states :: "state_name \<Rightarrow> color" where
  "states Closed = Red"
| "states Open = Green"
| "states Barrier = Black"
| "states Start = Orange"
| "states End = Turquoise"
| "states Path = Purple"

text \<open>
  A reference to a node is the pair of indices at which the node sits in the grid
  (\<^verbatim>\<open>grid[i][j]\<close>); the neighbour list of a node holds such references. The fields
  \<^verbatim>\<open>x\<close> and \<^verbatim>\<open>y\<close> of the class are called \<open>node_x\<close> and \<open>node_y\<close>.
\<close>

type_synonym ref = "nat \<times> nat"

record node =
  row :: int
  column :: int
  width :: int
  total_rows :: int
  node_x :: int
  node_y :: int
  color :: color
  neighbors :: "ref list"

type_synonym grid = "node list list"

text \<open>\<^verbatim>\<open>Node.__init__\<close>\<close>

definition Node :: "int \<Rightarrow> int \<Rightarrow> int \<Rightarrow> int \<Rightarrow> node" where
  "Node r c w t =
     \<lparr>row = r, column = c, width = w, total_rows = t,
      node_x = r * w, node_y = c * w, color = White, neighbors = []\<rparr>"

definition get_pos :: "node \<Rightarrow> int \<times> int" where
  "get_pos n = (row n, column n)"

definition is_closed :: "node \<Rightarrow> bool" where
  "is_closed n = (color n = states Closed)"

definition is_open :: "node \<Rightarrow> bool" where
  "is_open n = (color n = states Open)"

definition is_barrier :: "node \<Rightarrow> bool" where
  "is_barrier n = (color n = states Barrier)"

definition is_start :: "node \<Rightarrow> bool" where
  "is_start n = (color n = states Start)"

definition is_end :: "node \<Rightarrow> bool" where
  "is_end n = (color n = states End)"

definition is_path :: "node \<Rightarrow> bool" where
  "is_path n = (color n = states Path)"

definition make_closed :: "node \<Rightarrow> node" where
  "make_closed n = n\<lparr>color := states Closed\<rparr>"

definition make_open :: "node \<Rightarrow> node" where
  "make_open n = n\<lparr>color := states Open\<rparr>"

definition make_barrier :: "node \<Rightarrow> node" where
  "make_barrier n = n\<lparr>color := states Barrier\<rparr>"

definition make_start :: "node \<Rightarrow> node" where
  "make_start n = n\<lparr>color := states Start\<rparr>"

definition make_end :: "node \<Rightarrow> node" where
  "make_end n = n\<lparr>color := states End\<rparr>"

definition make_path :: "node \<Rightarrow> node" where
  "make_path n = n\<lparr>color := states Path\<rparr>"

text \<open>\<^verbatim>\<open>Node.reset\<close>\<close>

definition reset :: "node \<Rightarrow> node" where
  "reset n = n\<lparr>color := White, neighbors := []\<rparr>"

text \<open>\<^verbatim>\<open>manhattan_distance\<close>\<close>

fun manhattan_distance :: "int \<times> int \<Rightarrow> int \<times> int \<Rightarrow> int" where
  "manhattan_distance (x1, y1) (x2, y2) = \<bar>x1 - x2\<bar> + \<bar>y1 - y2\<bar>"

text \<open>
  \<^verbatim>\<open>create_grid\<close>. The floor division raises when \<^verbatim>\<open>total_rows\<close> is zero; \<^verbatim>\<open>range\<close>
  of a negative number is empty.
\<close>

definition create_grid :: "int \<Rightarrow> int \<Rightarrow> py_error + grid" where
  "create_grid n surface_width =
     (if n = 0 then Inl ZeroDivisionError
      else let node_width = surface_width div n in
        Inr (map (\<lambda>r. map (\<lambda>c. Node (int r) (int c) node_width n) [0..<nat n]) [0..<nat n]))"

text \<open>
  \<^verbatim>\<open>get_clicked_position\<close>, on integer coordinates (the pixel coordinates of a node and
  the mouse positions of pygame are integers). Both floor divisions can raise.
\<close>

definition get_clicked_position :: "int \<times> int \<Rightarrow> int \<Rightarrow> int \<Rightarrow> py_error + int \<times> int" where
  "get_clicked_position coords n surface_width =
     (if n = 0 then Inl ZeroDivisionError
      else let node_width = surface_width div n in
        if node_width = 0 then Inl ZeroDivisionError
        else Inr (fst coords div node_width, snd coords div node_width))"

definition node_at :: "grid \<Rightarrow> ref \<Rightarrow> node" where
  "node_at g p = g ! fst p ! snd p"

definition in_grid :: "grid \<Rightarrow> ref \<Rightarrow> bool" where
  "in_grid g p = (fst p < length g \<and> snd p < length (g ! fst p))"

section \<open>Neighbour lists and the reset before a run\<close>

text \<open>
  Python list indexing: a negative index counts from the end, an index out of range raises.
  \<open>py_index len i\<close> is the position that \<^verbatim>\<open>xs[i]\<close> reads in a list of length \<open>len\<close>.
\<close>

definition py_index :: "nat \<Rightarrow> int \<Rightarrow> py_error + nat" where
  "py_index len i =
     (if 0 \<le> i \<and> i < int len then Inr (nat i)
      else if i < 0 \<and> - int len \<le> i then Inr (nat (int len + i))
      else Inl IndexError)"

text \<open>The node that \<^verbatim>\<open>grid[r][c]\<close> denotes.\<close>

definition grid_ref :: "grid \<Rightarrow> int \<Rightarrow> int \<Rightarrow> py_error + ref" where
  "grid_ref g r c =
     (case py_index (length g) r of
        Inl e \<Rightarrow> Inl e
      | Inr i \<Rightarrow> (case py_index (length (g ! i)) c of
                   Inl e \<Rightarrow> Inl e
                 | Inr j \<Rightarrow> Inr (i, j)))"

text \<open>
  \<^verbatim>\<open>if not grid[r][c].is_barrier(): self.neighbors.append(grid[r][c])\<close>
\<close>

definition append_unless_barrier :: "grid \<Rightarrow> int \<Rightarrow> int \<Rightarrow> node \<Rightarrow> py_error + node" where
  "append_unless_barrier g r c self =
     (case grid_ref g r c of
        Inl e \<Rightarrow> Inl e
      | Inr p \<Rightarrow> Inr (if \<not> is_barrier (node_at g p)
                      then self\<lparr>neighbors := neighbors self @ [p]\<rparr> else self))"

text \<open>
  \<^verbatim>\<open>Node.update_neighbors\<close>: above, below, left, right, in this order. The method appends
  to the list the node already has. It returns the node with its new list; the caller
  stores it back into the grid.
\<close>

definition update_neighbors :: "node \<Rightarrow> grid \<Rightarrow> py_error + node" where
  "update_neighbors self g =
     (case (if row self > 0
            then append_unless_barrier g (row self - 1) (column self) self else Inr self) of
        Inl e \<Rightarrow> Inl e
      | Inr s1 \<Rightarrow>
     (case (if row s1 < total_rows s1 - 1
            then append_unless_barrier g (row s1 + 1) (column s1) s1 else Inr s1) of
        Inl e \<Rightarrow> Inl e
      | Inr s2 \<Rightarrow>
     (case (if column s2 > 0
            then append_unless_barrier g (row s2) (column s2 - 1) s2 else Inr s2) of
        Inl e \<Rightarrow> Inl e
      | Inr s3 \<Rightarrow>
        (if column s3 < total_rows s3 - 1
         then append_unless_barrier g (row s3) (column s3 + 1) s3 else Inr s3))))"

text \<open>Writing a node back at its place, and applying a method to the node at a place.\<close>

definition store :: "grid \<Rightarrow> ref \<Rightarrow> node \<Rightarrow> grid" where
  "store g p n = g[fst p := (g ! fst p)[snd p := n]]"

definition paint :: "(node \<Rightarrow> node) \<Rightarrow> ref \<Rightarrow> grid \<Rightarrow> grid" where
  "paint m p g = store g p (m (node_at g p))"

text \<open>The references of all nodes, in the order of \<^verbatim>\<open>for row in grid: for node in row\<close>.\<close>

definition all_refs :: "grid \<Rightarrow> ref list" where
  "all_refs g = concat (map (\<lambda>i. map (\<lambda>j. (i, j)) [0..<length (g ! i)]) [0..<length g])"

text \<open>A \<^verbatim>\<open>for\<close> loop whose body can raise.\<close>

fun for_each :: "('s \<Rightarrow> 'a \<Rightarrow> py_error + 's) \<Rightarrow> 'a list \<Rightarrow> 's \<Rightarrow> py_error + 's" where
  "for_each body [] s = Inr s"
| "for_each body (a # as) s =
     (case body s a of Inl e \<Rightarrow> Inl e | Inr s' \<Rightarrow> for_each body as s')"

text \<open>
  The loop that \<^verbatim>\<open>main\<close> runs when SPACE is pressed, before it calls
  \<^verbatim>\<open>generate_path\<close> (lines 410 to 415): every node that is not a barrier, the start or
  the end is reset, and \<^verbatim>\<open>update_neighbors\<close> is called on every node.
\<close>

definition reset_and_update :: "grid \<Rightarrow> ref \<Rightarrow> py_error + grid" where
  "reset_and_update g p =
     (let n = node_at g p;
          g1 = (if \<not> is_barrier n \<and> \<not> is_end n \<and> \<not> is_start n then store g p (reset n) else g)
      in case update_neighbors (node_at g1 p) g1 of
           Inl e \<Rightarrow> Inl e
         | Inr n' \<Rightarrow> Inr (store g1 p n'))"

definition reset_for_new_run :: "grid \<Rightarrow> py_error + grid" where
  "reset_for_new_run g = for_each reset_and_update (all_refs g) g"

section \<open>The search\<close>

text \<open>
  Events of pygame, as far as the program tells them apart, and the test that ends a
  search early (the quit button or the key Q).
\<close>

datatype key = K_q | K_SPACE | K_r | K_other

datatype event = QUIT | KEYDOWN key | OTHER

fun stops_search :: "event \<Rightarrow> bool" where
  "stops_search QUIT = True"
| "stops_search (KEYDOWN k) = (k = K_q)"
| "stops_search OTHER = False"

text \<open>
  \<^verbatim>\<open>reconstruct_path\<close>. The loop follows \<^verbatim>\<open>origin_node\<close> from the end node and calls
  \<^verbatim>\<open>make_path\<close> on every node it arrives at. It returns nothing; the model returns the
  grid and, as a record of what was done, the nodes it marked in the order of marking.
  On a map with a cycle the loop does not end, which is the value \<open>None\<close>. The drawing
  callback has no effect on the data and is left out.
\<close>

partial_function (option) reconstruct_loop ::
    "(ref \<rightharpoonup> ref) \<Rightarrow> ref \<Rightarrow> grid \<Rightarrow> ref list \<Rightarrow> (grid \<times> ref list) option" where
  "reconstruct_loop origin current_node g marked =
     (case origin current_node of
        None \<Rightarrow> Some (g, marked)
      | Some prev \<Rightarrow> reconstruct_loop origin prev (paint make_path prev g) (marked @ [prev]))"

definition reconstruct_path :: "(ref \<rightharpoonup> ref) \<Rightarrow> ref \<Rightarrow> grid \<Rightarrow> (grid \<times> ref list) option" where
  "reconstruct_path origin end_node g = reconstruct_loop origin end_node g []"

text \<open>
  The local variables of \<^verbatim>\<open>generate_path\<close>. The priority queue is the list of its
  items \<^verbatim>\<open>(f_score, count, node)\<close>; the scores are numbers or \<^verbatim>\<open>float("inf")\<close>. Two
  fields are added as a record of the run: the nodes in the order in which \<^verbatim>\<open>get\<close>
  returned them, and the number of times the body of the test
  \<^verbatim>\<open>temp_g_score < g_score[neighbor]\<close> was entered.
\<close>

type_synonym entry = "enat \<times> nat \<times> ref"

record run_state =
  cells :: grid
  count :: nat
  origin_node :: "ref \<rightharpoonup> ref"
  open_set :: "entry list"
  open_set_hash :: "ref set"
  g_score :: "ref \<rightharpoonup> enat"
  f_score :: "ref \<rightharpoonup> enat"
  popped :: "ref list"
  relaxations :: nat

text \<open>
  The order of the items is Python's order of tuples: the first component that differs
  decides; two nodes are compared by \<^verbatim>\<open>Node.__lt__\<close>, which is always false.
  \<^verbatim>\<open>PriorityQueue.get\<close> removes and returns a least item.
\<close>

fun entry_less :: "entry \<Rightarrow> entry \<Rightarrow> bool" where
  "entry_less (f1, c1, n1) (f2, c2, n2) =
     (if f1 \<noteq> f2 then f1 < f2 else if c1 \<noteq> c2 then c1 < c2 else False)"

fun least_entry :: "entry \<Rightarrow> entry list \<Rightarrow> entry" where
  "least_entry m [] = m"
| "least_entry m (e # es) = least_entry (if entry_less e m then e else m) es"

text \<open>Lines 270 to 284: the state before the loop.\<close>

definition initial_state :: "grid \<Rightarrow> ref \<Rightarrow> ref \<Rightarrow> run_state" where
  "initial_state g start_node end_node =
     \<lparr>cells = g, count = 0, origin_node = Map.empty,
      open_set = [(0, 0, start_node)], open_set_hash = {start_node},
      g_score = (\<lambda>p. if in_grid g p then Some \<infinity> else None)(start_node \<mapsto> 0),
      f_score = (\<lambda>p. if in_grid g p then Some \<infinity> else None)
        (start_node \<mapsto> enat (nat (manhattan_distance (get_pos (node_at g start_node))
                                                     (get_pos (node_at g end_node))))),
      popped = [], relaxations = 0\<rparr>"

text \<open>Lines 303 to 315: the body of the loop over the neighbours.\<close>

definition relax :: "ref \<Rightarrow> ref \<Rightarrow> run_state \<Rightarrow> ref \<Rightarrow> py_error + run_state" where
  "relax end_node current_node st neighbor =
     (case g_score st current_node of
        None \<Rightarrow> Inl KeyError
      | Some gc \<Rightarrow>
         let temp_g_score = gc + 1 in
         (case g_score st neighbor of
            None \<Rightarrow> Inl KeyError
          | Some gn \<Rightarrow>
             if temp_g_score < gn then
               let f = temp_g_score
                     + enat (nat (manhattan_distance (get_pos (node_at (cells st) neighbor))
                                                     (get_pos (node_at (cells st) end_node))));
                   st1 = st\<lparr>origin_node := (origin_node st)(neighbor \<mapsto> current_node),
                            g_score := (g_score st)(neighbor \<mapsto> temp_g_score),
                            f_score := (f_score st)(neighbor \<mapsto> f),
                            relaxations := relaxations st + 1\<rparr>
               in if neighbor \<notin> open_set_hash st1 then
                    Inr (st1\<lparr>count := count st1 + 1,
                             open_set := open_set st1 @ [(f, count st1 + 1, neighbor)],
                             open_set_hash := insert neighbor (open_set_hash st1),
                             cells := paint make_open neighbor (cells st1)\<rparr>)
                  else Inr st1
             else Inr st))"

datatype outcome = Found | Exhausted | Cancelled

text \<open>
  What a run leaves behind: which \<^verbatim>\<open>return\<close> ended it, the nodes marked by
  \<^verbatim>\<open>reconstruct_path\<close>, and the last state.
\<close>

record run_result =
  outcome :: outcome
  path :: "ref list"
  final :: run_state

datatype step = Stop "(py_error + run_result) option" | Continue run_state

text \<open>
  Lines 287 to 329: one round of the \<^verbatim>\<open>while\<close> loop, on the events that
  \<^verbatim>\<open>pygame.event.get()\<close> returned in this round. \<^verbatim>\<open>get\<close> on an empty queue would wait
  for ever.
\<close>

definition astar_step :: "ref \<Rightarrow> ref \<Rightarrow> event list \<Rightarrow> run_state \<Rightarrow> step" where
  "astar_step start_node end_node events st =
     (if list_ex stops_search events
      then Stop (Some (Inr \<lparr>outcome = Cancelled, path = [], final = st\<rparr>))
      else case open_set st of
        [] \<Rightarrow> Stop None
      | e # es \<Rightarrow>
         let item = least_entry e es;
             current_node = snd (snd item)
         in if current_node \<notin> open_set_hash st then Stop (Some (Inl KeyError))
            else
              let st1 = st\<lparr>open_set := remove1 item (open_set st),
                           open_set_hash := open_set_hash st - {current_node},
                           popped := popped st @ [current_node]\<rparr>
              in if current_node = end_node then
                   Stop (case reconstruct_path (origin_node st1) end_node (cells st1) of
                           None \<Rightarrow> None
                         | Some (g, marked) \<Rightarrow>
                             Some (Inr \<lparr>outcome = Found, path = marked,
                                        final = st1\<lparr>cells := paint make_start start_node
                                                                (paint make_end end_node g)\<rparr>\<rparr>))
                 else
                   (case for_each (relax end_node current_node)
                           (neighbors (node_at (cells st1) current_node)) st1 of
                      Inl err \<Rightarrow> Stop (Some (Inl err))
                    | Inr st2 \<Rightarrow>
                        let g1 = (if current_node \<noteq> start_node
                                  then paint make_closed current_node (cells st2)
                                  else cells st2)
                        in Continue (st2\<lparr>cells := paint make_end end_node g1\<rparr>)))"

text \<open>
  The \<^verbatim>\<open>while\<close> loop. \<open>polls\<close> holds what the successive calls of
  \<^verbatim>\<open>pygame.event.get()\<close> return; once the list is used up there are no more events.
  A run that does not return has the value \<open>None\<close>.
\<close>

partial_function (option) astar_loop ::
    "ref \<Rightarrow> ref \<Rightarrow> event list list \<Rightarrow> run_state \<Rightarrow> (py_error + run_result) option" where
  "astar_loop start_node end_node polls st =
     (if open_set st = [] then Some (Inr \<lparr>outcome = Exhausted, path = [], final = st\<rparr>)
      else case astar_step start_node end_node (case polls of [] \<Rightarrow> [] | evs # _ \<Rightarrow> evs) st of
             Stop r \<Rightarrow> r
           | Continue st' \<Rightarrow> astar_loop start_node end_node (tl polls) st')"

text \<open>
  \<^verbatim>\<open>generate_path\<close>. \<^verbatim>\<open>main\<close> passes \<^verbatim>\<open>None\<close> for a start or end node that is not
  set; then \<^verbatim>\<open>get_pos\<close> in line 284 raises.
\<close>

definition generate_path ::
    "grid \<Rightarrow> ref option \<Rightarrow> ref option \<Rightarrow> event list list \<Rightarrow> (py_error + run_result) option" where
  "generate_path g start_node end_node polls =
     (case start_node of
        None \<Rightarrow> Some (Inl AttributeError)
      | Some s \<Rightarrow>
         (case end_node of
            None \<Rightarrow> Some (Inl AttributeError)
          | Some e \<Rightarrow> astar_loop s e polls (initial_state g s e)))"

text \<open>
  What \<^verbatim>\<open>main\<close> does when SPACE is pressed (lines 409 to 419): the reset loop, then the
  search, on the start and end node that \<^verbatim>\<open>main\<close> holds at that moment.
\<close>

definition space_pressed ::
    "grid \<Rightarrow> ref option \<Rightarrow> ref option \<Rightarrow> event list list \<Rightarrow> (py_error + run_result) option" where
  "space_pressed g start_node end_node polls =
     (case reset_for_new_run g of
        Inl e \<Rightarrow> Some (Inl e)
      | Inr g' \<Rightarrow> generate_path g' start_node end_node polls)"

declare astar_loop.simps [code]
declare reconstruct_loop.simps [code]

section \<open>Notions used in the statements\<close>

text \<open>A grid as \<^verbatim>\<open>create_grid\<close> returns it for the window of 600 pixels.\<close>

definition fresh_grid :: "nat \<Rightarrow> grid" where
  "fresh_grid n = (case create_grid (int n) 600 of Inr g \<Rightarrow> g | Inl _ \<Rightarrow> [])"

text \<open>A 2 x 2 grid with the start node at (0, 0) and the end node at (1, 1).\<close>

definition ends_grid :: grid where
  "ends_grid = paint make_end (1, 1) (paint make_start (0, 0) (fresh_grid 2))"

text \<open>
  A 2 x 2 grid as an earlier run can leave it once the start node has been removed with
  the right mouse button: the end node at (1, 1), a closed node at (0, 1), no start node.
\<close>

definition stale_grid :: grid where
  "stale_grid = paint make_end (1, 1) (paint make_closed (0, 1) (fresh_grid 2))"

text \<open>
  \<open>follows origin p ps\<close>: \<open>ps\<close> is the chain of predecessors of \<open>p\<close> in \<open>origin\<close>, up to
  a node without predecessor.
\<close>

fun follows :: "(ref \<rightharpoonup> ref) \<Rightarrow> ref \<Rightarrow> ref list \<Rightarrow> bool" where
  "follows origin current_node [] = (origin current_node = None)"
| "follows origin current_node (p # ps) = (origin current_node = Some p \<and> follows origin p ps)"

text \<open>
  The nodes that the reset loop does not reset, and two nodes that the reset loop cannot
  tell apart: equal in every field, the neighbour list too, if one of them is a barrier,
  the start or the end, and equal after \<^verbatim>\<open>reset\<close> otherwise. Two grids are alike when
  they have the same shape and their nodes are alike place by place.
\<close>

definition role :: "node \<Rightarrow> bool" where
  "role n = (is_barrier n \<or> is_end n \<or> is_start n)"

definition alike :: "node \<Rightarrow> node \<Rightarrow> bool" where
  "alike a b = (if role a \<or> role b then a = b else reset a = reset b)"

definition alike_grids :: "grid \<Rightarrow> grid \<Rightarrow> bool" where
  "alike_grids g1 g2 = list_all2 (list_all2 alike) g1 g2"

text \<open>\<open>ends_grid\<close> with the marks of an earlier run on two of its nodes.\<close>

definition marked_grid :: grid where
  "marked_grid = paint make_open (1, 0) (paint make_closed (0, 1) ends_grid)"

text \<open>
  Names for the parts of one round of the loop: the item that \<^verbatim>\<open>get\<close> returns, the state
  after lines 292 and 293, the two states that the body of line 305 can produce, and the
  state after lines 317 to 325.
\<close>

definition pop_item :: "run_state \<Rightarrow> entry" where
  "pop_item st = least_entry (hd (open_set st)) (tl (open_set st))"

definition popped_state :: "run_state \<Rightarrow> run_state" where
  "popped_state st =
     st\<lparr>open_set := remove1 (pop_item st) (open_set st),
        open_set_hash := open_set_hash st - {snd (snd (pop_item st))},
        popped := popped st @ [snd (snd (pop_item st))]\<rparr>"

definition new_f :: "ref \<Rightarrow> enat \<Rightarrow> run_state \<Rightarrow> ref \<Rightarrow> enat" where
  "new_f end_node temp_g_score st neighbor =
     temp_g_score + enat (nat (manhattan_distance (get_pos (node_at (cells st) neighbor))
                                                  (get_pos (node_at (cells st) end_node))))"

definition improved :: "ref \<Rightarrow> ref \<Rightarrow> enat \<Rightarrow> run_state \<Rightarrow> ref \<Rightarrow> run_state" where
  "improved end_node current_node temp_g_score st neighbor =
     st\<lparr>origin_node := (origin_node st)(neighbor \<mapsto> current_node),
        g_score := (g_score st)(neighbor \<mapsto> temp_g_score),
        f_score := (f_score st)(neighbor \<mapsto> new_f end_node temp_g_score st neighbor),
        relaxations := relaxations st + 1\<rparr>"

definition pushed :: "ref \<Rightarrow> ref \<Rightarrow> enat \<Rightarrow> run_state \<Rightarrow> ref \<Rightarrow> run_state" where
  "pushed end_node current_node temp_g_score st neighbor =
     (improved end_node current_node temp_g_score st neighbor)
       \<lparr>count := count st + 1,
        open_set := open_set st @ [(new_f end_node temp_g_score st neighbor, count st + 1, neighbor)],
        open_set_hash := insert neighbor (open_set_hash st),
        cells := paint make_open neighbor (cells st)\<rparr>"

definition closed_state :: "ref \<Rightarrow> ref \<Rightarrow> ref \<Rightarrow> run_state \<Rightarrow> run_state" where
  "closed_state start_node end_node current_node st =
     st\<lparr>cells := paint make_end end_node
                   (if current_node \<noteq> start_node
                    then paint make_closed current_node (cells st) else cells st)\<rparr>"

text \<open>A node has been seen when its score \<open>g\<close> is a number.\<close>

definition seen :: "run_state \<Rightarrow> ref \<Rightarrow> bool" where
  "seen st p = (\<exists>k. g_score st p = Some (enat k))"

text \<open>
  The graph that the search walks: \<open>linked g s p\<close> when \<open>p\<close> is reached from \<open>s\<close> along
  the neighbour lists stored in the grid.
\<close>

inductive linked :: "grid \<Rightarrow> ref \<Rightarrow> ref \<Rightarrow> bool" for g s where
  linked_start: "linked g s s"
| linked_step: "linked g s p \<Longrightarrow> q \<in> set (neighbors (node_at g p)) \<Longrightarrow> linked g s q"

definition closed_graph :: "grid \<Rightarrow> bool" where
  "closed_graph g = (\<forall>p. in_grid g p \<longrightarrow> (\<forall>q \<in> set (neighbors (node_at g p)). in_grid g q))"

text \<open>
  The invariants of the loop. \<open>frame\<close>: the run changes colours only. \<open>inv_queue\<close>: the
  queue and \<^verbatim>\<open>open_set_hash\<close> hold the same nodes, once each, all of them seen.
  \<open>inv_scores\<close>: the scores are defined on the grid, every seen node is linked to the start,
  and the score falls along \<^verbatim>\<open>origin_node\<close>. \<open>inv_closed\<close>: a seen node outside the queue
  is not the end node and all its neighbours are seen. \<open>inv_marks\<close>: a seen node other than
  start and end is open in the queue and closed outside; no path mark is added. The set
  \<open>X\<close> holds the node whose neighbours are being looked at.
\<close>

definition frame :: "grid \<Rightarrow> grid \<Rightarrow> bool" where
  "frame g0 g = (\<forall>p. in_grid g p = in_grid g0 p
                   \<and> neighbors (node_at g p) = neighbors (node_at g0 p)
                   \<and> get_pos (node_at g p) = get_pos (node_at g0 p))"

definition inv_queue :: "run_state \<Rightarrow> bool" where
  "inv_queue st = (set (map (snd \<circ> snd) (open_set st)) = open_set_hash st
                   \<and> distinct (map (snd \<circ> snd) (open_set st))
                   \<and> (\<forall>p \<in> open_set_hash st. seen st p))"

definition inv_scores :: "grid \<Rightarrow> ref \<Rightarrow> run_state \<Rightarrow> bool" where
  "inv_scores g0 s st =
     (frame g0 (cells st)
      \<and> (\<forall>p. in_grid g0 p \<longleftrightarrow> g_score st p \<noteq> None)
      \<and> g_score st s = Some 0
      \<and> (\<forall>p. seen st p \<longrightarrow> linked g0 s p)
      \<and> (\<forall>p q. origin_node st p = Some q \<longrightarrow>
            (\<exists>a b. g_score st p = Some (enat a) \<and> g_score st q = Some (enat b) \<and> b < a)))"

definition inv_closed :: "grid \<Rightarrow> ref \<Rightarrow> ref set \<Rightarrow> run_state \<Rightarrow> bool" where
  "inv_closed g0 e X st =
     (\<forall>p. seen st p \<longrightarrow> p \<notin> open_set_hash st \<longrightarrow> p \<notin> X \<longrightarrow>
          p \<noteq> e \<and> (\<forall>q \<in> set (neighbors (node_at g0 p)). seen st q))"

definition inv_marks :: "grid \<Rightarrow> ref \<Rightarrow> ref \<Rightarrow> ref set \<Rightarrow> run_state \<Rightarrow> bool" where
  "inv_marks g0 s e X st =
     ((\<forall>p. seen st p \<longrightarrow> p \<noteq> s \<longrightarrow> p \<noteq> e \<longrightarrow> p \<notin> X \<longrightarrow>
          color (node_at (cells st) p)
            = (if p \<in> open_set_hash st then states Open else states Closed))
      \<and> (s \<noteq> e \<longrightarrow> color (node_at (cells st) s) = color (node_at g0 s))
      \<and> (\<forall>p. is_path (node_at (cells st) p) \<longrightarrow> is_path (node_at g0 p)))"

definition inv :: "grid \<Rightarrow> ref \<Rightarrow> ref \<Rightarrow> ref set \<Rightarrow> run_state \<Rightarrow> bool" where
  "inv g0 s e X st =
     (inv_queue st \<and> inv_scores g0 s st \<and> inv_closed g0 e X st \<and> inv_marks g0 s e X st)"

text \<open>The measure of the loop: the scores of the nodes of the grid, then the queue.\<close>

definition score :: "run_state \<Rightarrow> ref \<Rightarrow> enat" where
  "score st p = (case g_score st p of None \<Rightarrow> 0 | Some v \<Rightarrow> v)"

definition shrinks :: "grid \<Rightarrow> run_state \<Rightarrow> run_state \<Rightarrow> bool" where
  "shrinks g0 st st' =
     ((\<forall>p. score st' p \<le> score st p)
      \<and> ((\<exists>p. in_grid g0 p \<and> score st' p < score st p)
          \<or> (g_score st' = g_score st \<and> open_set st' = open_set st)))"

definition smaller :: "grid \<Rightarrow> (run_state \<times> run_state) set" where
  "smaller g0 =
     inv_image (lex {(a, b :: enat). a < b} <*lex*> less_than)
       (\<lambda>st. (map (score st) (all_refs g0), length (open_set st)))"

text \<open>What a pass over neighbours of \<open>cur\<close> keeps, from state to state.\<close>

definition relaxed_to :: "grid \<Rightarrow> ref \<Rightarrow> nat \<Rightarrow> run_state \<Rightarrow> run_state \<Rightarrow> bool" where
  "relaxed_to g0 cur k st st' =
     ((\<forall>p. seen st p \<longrightarrow> seen st' p) \<and> g_score st' cur = Some (enat k) \<and> shrinks g0 st st'
      \<and> (cur \<notin> open_set_hash st \<longrightarrow> cur \<notin> open_set_hash st'))"

text \<open>
  The grids of the claims about the search. \<open>well_formed n g\<close>: \<open>g\<close> has \<open>n\<close> rows of \<open>n\<close>
  nodes, each node knows its place and the size, as in a grid of \<^verbatim>\<open>create_grid\<close>.
  \<open>neighbors_current g\<close>: every neighbour list holds the nodes that \<^verbatim>\<open>update_neighbors\<close>
  puts into an empty list for the barriers of \<open>g\<close> (in any order, possibly repeated).
\<close>

definition well_formed :: "nat \<Rightarrow> grid \<Rightarrow> bool" where
  "well_formed n g =
     (length g = n \<and> list_all (\<lambda>r. length r = n) g
      \<and> list_all (\<lambda>p. row (node_at g p) = int (fst p) \<and> column (node_at g p) = int (snd p)
                       \<and> total_rows (node_at g p) = int n) (all_refs g))"

definition neighbors_current :: "grid \<Rightarrow> bool" where
  "neighbors_current g =
     list_all (\<lambda>p. case update_neighbors ((node_at g p)\<lparr>neighbors := []\<rparr>) g of
                      Inl _ \<Rightarrow> False
                    | Inr n' \<Rightarrow> set (neighbors (node_at g p)) = set (neighbors n'))
       (all_refs g)"

text \<open>
  Two places next to each other in a row or a column, and the nodes that a sequence of
  such steps over nodes that are not barriers reaches from \<open>s\<close>.
\<close>

definition adjacent :: "ref \<Rightarrow> ref \<Rightarrow> bool" where
  "adjacent p q =
     ((fst p = fst q \<and> (snd p = Suc (snd q) \<or> snd q = Suc (snd p)))
      \<or> (snd p = snd q \<and> (fst p = Suc (fst q) \<or> fst q = Suc (fst p))))"

inductive reachable :: "grid \<Rightarrow> ref \<Rightarrow> ref \<Rightarrow> bool" for g s where
  reachable_start: "in_grid g s \<Longrightarrow> \<not> is_barrier (node_at g s) \<Longrightarrow> reachable g s s"
| reachable_step: "reachable g s p \<Longrightarrow> adjacent p q \<Longrightarrow> in_grid g q
                     \<Longrightarrow> \<not> is_barrier (node_at g q) \<Longrightarrow> reachable g s q"

definition grid_graph :: "grid \<Rightarrow> bool" where
  "grid_graph g =
     (\<forall>p. in_grid g p \<longrightarrow>
        set (neighbors (node_at g p))
          = {q. adjacent p q \<and> in_grid g q \<and> \<not> is_barrier (node_at g q)})"

text \<open>
  A 2 x 2 grid whose start node (0, 0) is walled in by two barriers, after the reset loop.
\<close>

definition walled_grid :: grid where
  "walled_grid = projr (reset_for_new_run
     (paint make_barrier (0, 1) (paint make_barrier (1, 0) ends_grid)))"

text \<open>
  The Manhattan distance of two places, by \<^verbatim>\<open>manhattan_distance\<close>, and the places that
  lie on a shortest way from \<open>s\<close> to \<open>e\<close>.
\<close>

definition md :: "ref \<Rightarrow> ref \<Rightarrow> nat" where
  "md p q = nat (manhattan_distance (int (fst p), int (snd p)) (int (fst q), int (snd q)))"

definition between :: "ref \<Rightarrow> ref \<Rightarrow> ref \<Rightarrow> bool" where
  "between s e p = (md s p + md p e = md s e)"

text \<open>
  The invariants of a search on a grid without barriers. \<open>inv_bfs\<close>: the score \<open>g\<close> of a
  seen node is its distance from the start; an item of the queue has a count of at most
  \<^verbatim>\<open>count\<close>, and its first component is at most the distance from start to end exactly
  when its node lies between start and end; the counts in the queue differ; among the
  items between start and end the order of the queue follows the distance from the start,
  which differs by at most one; \<^verbatim>\<open>origin_node\<close> leads to an adjacent node, and every seen
  node but the start has an entry. \<open>bfs_head\<close> adds what holds at the head of the loop,
  \<open>bfs_pass\<close> what holds while the neighbours of a node at distance \<open>k\<close> are looked at.
\<close>

definition inv_bfs :: "ref \<Rightarrow> ref \<Rightarrow> run_state \<Rightarrow> bool" where
  "inv_bfs s e st =
     ((\<forall>p k. g_score st p = Some (enat k) \<longrightarrow> k = md s p)
      \<and> (\<forall>x \<in> set (open_set st). fst (snd x) \<le> count st
            \<and> (between s e (snd (snd x)) \<longrightarrow> fst x \<le> enat (md s e))
            \<and> (\<not> between s e (snd (snd x)) \<longrightarrow> enat (md s e) < fst x))
      \<and> distinct (map (fst \<circ> snd) (open_set st))
      \<and> (\<forall>x \<in> set (open_set st). \<forall>y \<in> set (open_set st).
            between s e (snd (snd x)) \<longrightarrow> between s e (snd (snd y)) \<longrightarrow>
              (entry_less x y \<longrightarrow> md s (snd (snd x)) \<le> md s (snd (snd y)))
              \<and> md s (snd (snd y)) \<le> Suc (md s (snd (snd x))))
      \<and> (\<forall>p q. origin_node st p = Some q \<longrightarrow> adjacent q p)
      \<and> (\<forall>p. seen st p \<longrightarrow> p \<noteq> s \<longrightarrow> origin_node st p \<noteq> None))"

definition bfs_head :: "ref \<Rightarrow> ref \<Rightarrow> run_state \<Rightarrow> bool" where
  "bfs_head s e st =
     (inv_bfs s e st
      \<and> (\<forall>x \<in> set (open_set st). between s e (snd (snd x)) \<longrightarrow>
            (\<forall>p. between s e p \<longrightarrow> md s p < md s (snd (snd x)) \<longrightarrow> seen st p))
      \<and> (\<forall>p. seen st p \<longrightarrow> p \<notin> open_set_hash st \<longrightarrow>
            (\<forall>x \<in> set (open_set st). between s e (snd (snd x)) \<longrightarrow> md s p \<le> md s (snd (snd x))))
      \<and> (\<exists>x \<in> set (open_set st). between s e (snd (snd x))))"

definition bfs_pass :: "ref \<Rightarrow> ref \<Rightarrow> nat \<Rightarrow> run_state \<Rightarrow> bool" where
  "bfs_pass s e k st =
     (inv_bfs s e st
      \<and> (\<forall>x \<in> set (open_set st). between s e (snd (snd x)) \<longrightarrow>
            k \<le> md s (snd (snd x)) \<and> md s (snd (snd x)) \<le> Suc k)
      \<and> (\<forall>p. between s e p \<longrightarrow> md s p \<le> k \<longrightarrow> seen st p)
      \<and> (\<forall>p. seen st p \<longrightarrow> p \<notin> open_set_hash st \<longrightarrow> md s p \<le> k))"

text \<open>A grid without barriers.\<close>

definition no_barriers :: "grid \<Rightarrow> bool" where
  "no_barriers g = list_all (\<lambda>p. \<not> is_barrier (node_at g p)) (all_refs g)"

text \<open>The setting of a search on a grid without barriers.\<close>

definition open_field :: "nat \<Rightarrow> grid \<Rightarrow> ref \<Rightarrow> ref \<Rightarrow> bool" where
  "open_field n g s e =
     (well_formed n g \<and> grid_graph g \<and> (\<forall>p. in_grid g p \<longrightarrow> \<not> is_barrier (node_at g p))
      \<and> in_grid g s \<and> in_grid g e)"

text \<open>\<open>walk p qs\<close>: the list \<open>qs\<close> goes from \<open>p\<close> through adjacent places.\<close>

fun walk :: "ref \<Rightarrow> ref list \<Rightarrow> bool" where
  "walk p [] = True"
| "walk p (q # qs) = (adjacent p q \<and> walk q qs)"

text \<open>A 3 x 3 grid without barriers, start (0, 0) and end (2, 2), after the reset loop.\<close>

definition open_grid :: grid where
  "open_grid = projr (reset_for_new_run
     (paint make_end (2, 2) (paint make_start (0, 0) (fresh_grid 3))))"

text \<open>
  \<open>ends_grid\<close> after a first search, with barriers then placed at (0, 1) and (1, 0), the two
  neighbours of the start node.
\<close>

definition rewalled_grid :: grid where
  "rewalled_grid = paint make_barrier (0, 1) (paint make_barrier (1, 0)
     (cells (final (projr (the (space_pressed ends_grid (Some (0, 0)) (Some (1, 1)) []))))))"

text \<open>The counts of the items in the queue differ and are at most \<^verbatim>\<open>count\<close>.\<close>

definition counts_ok :: "run_state \<Rightarrow> bool" where
  "counts_ok st =
     (distinct (map (fst \<circ> snd) (open_set st))
      \<and> (\<forall>x \<in> set (open_set st). fst (snd x) \<le> count st))"

text \<open>
  The scenario of the specification: a 3 x 3 grid with a wall of barriers in the middle
  column, start (0, 0) and end (0, 2), after the reset loop.
\<close>

definition wall_grid :: grid where
  "wall_grid = projr (reset_for_new_run
     (paint make_barrier (2, 1) (paint make_barrier (1, 1) (paint make_barrier (0, 1)
        (paint make_end (0, 2) (paint make_start (0, 0) (fresh_grid 3)))))))"

text \<open>
  \<open>ends_grid\<close> as one session of \<^verbatim>\<open>main\<close> leaves it: a barrier is placed at (1, 0), SPACE
  is pressed and the search runs, then the right mouse button removes the barrier at
  (1, 0) and the path mark at (0, 1).
\<close>

definition reopened_grid :: grid where
  "reopened_grid = paint reset (0, 1) (paint reset (1, 0)
     (cells (final (projr (the
        (space_pressed (paint make_barrier (1, 0) ends_grid) (Some (0, 0)) (Some (1, 1)) []))))))"

section \<open>Properties of single nodes and of the pixel mapping\<close>

lemma rgb_inj: "rgb a = rgb b \<Longrightarrow> a = b"
  by (cases a; cases b) simp_all

text \<open>
  C9. \<^verbatim>\<open>Node.reset\<close> writes the colour (white) and the neighbour list (empty) and leaves the
  fields row, column, width, total_rows, x and y as they were.
\<close>

theorem reset_frame:
  "color (reset n) = White \<and> neighbors (reset n) = [] \<and>
   row (reset n) = row n \<and> column (reset n) = column n \<and> width (reset n) = width n \<and>
   total_rows (reset n) = total_rows n \<and> node_x (reset n) = node_x n \<and>
   node_y (reset n) = node_y n"
  by (simp add: reset_def)

lemma create_grid_node:
  assumes "0 < n" "r < nat n" "c < nat n" "create_grid n w = Inr g"
  shows "node_at g (r, c) = Node (int r) (int c) (w div n) n"
  using assms by (auto simp: create_grid_def node_at_def Let_def)

text \<open>
  C10. In a grid created with \<open>0 < n \<le> w\<close>, the pixel coordinates of the node at indices
  \<open>(r, c)\<close> are mapped back by \<^verbatim>\<open>get_clicked_position\<close> to the node's row and column,
  which are \<open>(r, c)\<close>.
\<close>

theorem clicked_position_roundtrip:
  assumes "0 < n" and "n \<le> w" and "create_grid n w = Inr g" and "r < nat n" and "c < nat n"
  shows "get_clicked_position (node_x (node_at g (r, c)), node_y (node_at g (r, c))) n w
           = Inr (row (node_at g (r, c)), column (node_at g (r, c)))
         \<and> get_pos (node_at g (r, c)) = (int r, int c)"
proof -
  have nd: "node_at g (r, c) = Node (int r) (int c) (w div n) n"
    using assms create_grid_node by blast
  have "n div n \<le> w div n"
    using assms(1,2) by (intro zdiv_mono1) simp_all
  then have pos: "0 < w div n"
    using assms(1) by simp
  show ?thesis
    using pos assms(1) by (simp add: nd Node_def get_clicked_position_def get_pos_def)
qed

theorem clicked_position_roundtrip_witness:
  "(0::int) < 25 \<and> (25::int) \<le> 600 \<and> (\<exists>g. create_grid 25 600 = Inr g \<and>
     get_clicked_position (node_x (node_at g (3, 7)), node_y (node_at g (3, 7))) 25 600
       = Inr (row (node_at g (3, 7)), column (node_at g (3, 7))))"
proof -
  obtain g where g: "create_grid 25 600 = Inr g"
    by (simp add: create_grid_def)
  have "get_clicked_position (node_x (node_at g (3, 7)), node_y (node_at g (3, 7))) 25 600
       = Inr (row (node_at g (3, 7)), column (node_at g (3, 7)))"
    using clicked_position_roundtrip [of 25 600 g 3 7] g by simp
  with g show ?thesis by simp
qed

lemma length_store [simp]: "length (store g p n) = length g"
  by (simp add: store_def)

lemma length_store_row [simp]: "length (store g p n ! i) = length (g ! i)"
  by (cases "fst p < length g") (auto simp: store_def nth_list_update list_update_beyond)

lemma in_grid_store [simp]: "in_grid (store g p n) q = in_grid g q"
  by (simp add: in_grid_def)

lemma node_at_store:
  "node_at (store g p n) q = (if q = p \<and> in_grid g p then n else node_at g q)"
proof (cases "fst q = fst p")
  case True
  show ?thesis
  proof (cases "fst p < length g")
    case True
    with \<open>fst q = fst p\<close> show ?thesis
      by (cases "snd q = snd p")
         (auto simp: store_def node_at_def in_grid_def prod_eq_iff list_update_beyond)
  next
    case False
    then show ?thesis by (simp add: store_def node_at_def in_grid_def list_update_beyond)
  qed
next
  case False
  then show ?thesis by (auto simp: store_def node_at_def)
qed

lemma in_grid_paint [simp]: "in_grid (paint m p g) q = in_grid g q"
  by (simp add: paint_def)

lemma node_at_paint:
  "node_at (paint m p g) q = (if q = p \<and> in_grid g p then m (node_at g p) else node_at g q)"
  by (simp add: paint_def node_at_store)

lemma in_grid_fold_paint [simp]: "in_grid (fold (paint m) ps g) q = in_grid g q"
  by (induction ps arbitrary: g) simp_all

lemma node_at_fold_make_path:
  "node_at (fold (paint make_path) ps g) q =
     (if q \<in> set ps \<and> in_grid g q then make_path (node_at g q) else node_at g q)"
  by (induction ps arbitrary: g) (auto simp: node_at_paint make_path_def)

lemma reconstruct_loop_follows:
  "follows origin cur ms \<Longrightarrow>
   reconstruct_loop origin cur g acc = Some (fold (paint make_path) ms g, acc @ ms)"
proof (induction ms arbitrary: cur g acc)
  case Nil
  then show ?case by (simp add: reconstruct_loop.simps)
next
  case (Cons m ms)
  then show ?case by (subst reconstruct_loop.simps) simp
qed


lemma reconstruct_loop_returns:
  assumes "reconstruct_loop origin cur g acc = Some r"
  shows "\<exists>ms. follows origin cur ms \<and> r = (fold (paint make_path) ms g, acc @ ms)"
proof (rule reconstruct_loop.raw_induct
    [where P = "\<lambda>origin cur g acc r.
       \<exists>ms. follows origin cur ms \<and> r = (fold (paint make_path) ms g, acc @ ms)",
     OF _ assms])
  fix rec :: "(ref \<rightharpoonup> ref) \<Rightarrow> ref \<Rightarrow> grid \<Rightarrow> ref list \<Rightarrow> (grid \<times> ref list) option"
  fix origin cur g acc r
  assume IH: "\<And>o' c' g' a' y. rec o' c' g' a' = Some y \<Longrightarrow>
      \<exists>ms. follows o' c' ms \<and> y = (fold (paint make_path) ms g', a' @ ms)"
  assume body: "(case origin cur of None \<Rightarrow> Some (g, acc)
      | Some prev \<Rightarrow> rec origin prev (paint make_path prev g) (acc @ [prev])) = Some r"
  show "\<exists>ms. follows origin cur ms \<and> r = (fold (paint make_path) ms g, acc @ ms)"
  proof (cases "origin cur")
    case None
    with body have "follows origin cur [] \<and> r = (fold (paint make_path) [] g, acc @ [])"
      by simp
    then show ?thesis by blast
  next
    case (Some prev)
    with body have rc: "rec origin prev (paint make_path prev g) (acc @ [prev]) = Some r"
      by simp
    from IH [OF rc] obtain ms where
      "follows origin prev ms"
      "r = (fold (paint make_path) ms (paint make_path prev g), (acc @ [prev]) @ ms)"
      by blast
    with Some have
      "follows origin cur (prev # ms) \<and> r = (fold (paint make_path) (prev # ms) g, acc @ prev # ms)"
      by simp
    then show ?thesis by blast
  qed
qed

text \<open>
  C4, as the code has it. \<^verbatim>\<open>reconstruct_path\<close> has no test for the start node: when it
  returns, the nodes it marked are the whole chain of predecessors of the end node, every
  one of them that lies in the grid is a path node, and no other node has changed. The
  start node, which closes the chain in a run of the search, is repainted afterwards by
  \<^verbatim>\<open>generate_path\<close>.
\<close>

theorem reconstruct_path_marks:
  assumes "reconstruct_path origin e g = Some (g', marked)"
  shows "follows origin e marked \<and> g' = fold (paint make_path) marked g \<and>
         (\<forall>p \<in> set marked. in_grid g p \<longrightarrow> is_path (node_at g' p)) \<and>
         (\<forall>p. p \<notin> set marked \<longrightarrow> node_at g' p = node_at g p)"
proof -
  from assms obtain ms where ms: "follows origin e ms" "(g', marked) = (fold (paint make_path) ms g, [] @ ms)"
    unfolding reconstruct_path_def using reconstruct_loop_returns by blast
  then have "marked = ms" "g' = fold (paint make_path) marked g" by simp_all
  with ms(1) show ?thesis
    by (simp add: node_at_fold_make_path is_path_def make_path_def)
qed


theorem reconstruct_path_marks_witness:
  "reconstruct_path [(1, 1) \<mapsto> (0, 1), (0, 1) \<mapsto> (0, 0)] (1, 1) ends_grid
     = Some (fold (paint make_path) [(0, 1), (0, 0)] ends_grid, [(0, 1), (0, 0)])
   \<and> follows [(1, 1) \<mapsto> (0, 1), (0, 1) \<mapsto> (0, 0)] (1, 1) [(0, 1), (0, 0)]
   \<and> in_grid ends_grid (0, 0)
   \<and> is_path (node_at (fold (paint make_path) [(0, 1), (0, 0)] ends_grid) (0, 0))
   \<and> is_path (node_at (fold (paint make_path) [(0, 1), (0, 0)] ends_grid) (0, 1))
   \<and> node_at (fold (paint make_path) [(0, 1), (0, 0)] ends_grid) (1, 1)
       = node_at ends_grid (1, 1)"
proof -
  have ing: "in_grid ends_grid (0, 0)" "in_grid ends_grid (0, 1)"
    by code_simp+
  have run: "reconstruct_path [(1, 1) \<mapsto> (0, 1), (0, 1) \<mapsto> (0, 0)] (1, 1) ends_grid
     = Some (fold (paint make_path) [(0, 1), (0, 0)] ends_grid, [(0, 1), (0, 0)])"
    unfolding reconstruct_path_def
    using reconstruct_loop_follows
      [of "[(1, 1) \<mapsto> (0, 1), (0, 1) \<mapsto> (0, 0)]" "(1, 1)" "[(0, 1), (0, 0)]" ends_grid "[]"]
    by simp
  from reconstruct_path_marks [OF run] run ing show ?thesis by simp
qed

text \<open>
  The claim C4 as it is written fails: on the 2 x 2 grid with the start node at (0, 0),
  whose successor on the path is the end node (1, 1) itself reached through (0, 1), the
  reconstructor paints the start node as a path node.
\<close>

theorem reconstruct_path_marks_start:
  "is_start (node_at ends_grid (0, 0))
   \<and> reconstruct_path [(1, 1) \<mapsto> (0, 1), (0, 1) \<mapsto> (0, 0)] (1, 1) ends_grid \<noteq> None
   \<and> snd (the (reconstruct_path [(1, 1) \<mapsto> (0, 1), (0, 1) \<mapsto> (0, 0)] (1, 1) ends_grid))
       = [(0, 1), (0, 0)]
   \<and> is_path (node_at (fst (the (reconstruct_path
         [(1, 1) \<mapsto> (0, 1), (0, 1) \<mapsto> (0, 0)] (1, 1) ends_grid))) (0, 0))
   \<and> \<not> is_start (node_at (fst (the (reconstruct_path
         [(1, 1) \<mapsto> (0, 1), (0, 1) \<mapsto> (0, 0)] (1, 1) ends_grid))) (0, 0))"
  by code_simp

section \<open>The state before the loop, cancellation, and a search without start or end\<close>

text \<open>
  C8, as the code has it. Before the loop the score \<open>g\<close> of the start node is 0 and its
  score \<open>f\<close> is the Manhattan distance to the end node; the item put on the queue is
  \<^verbatim>\<open>(0, 0, start_node)\<close>: its first component is the number 0, not the score \<open>f\<close>.
\<close>

theorem initial_state_scores:
  "g_score (initial_state g s e) s = Some 0
   \<and> f_score (initial_state g s e) s
       = Some (enat (nat (manhattan_distance (get_pos (node_at g s)) (get_pos (node_at g e)))))
   \<and> open_set (initial_state g s e) = [(0, 0, s)]
   \<and> open_set_hash (initial_state g s e) = {s}
   \<and> count (initial_state g s e) = 0
   \<and> generate_path g (Some s) (Some e) polls = astar_loop s e polls (initial_state g s e)"
  by (simp add: initial_state_def generate_path_def)

text \<open>
  The claim C8 as it is written fails: on the 2 x 2 grid with start (0, 0) and end (1, 1)
  the Manhattan distance is 2 and the first component of the item on the queue is 0.
\<close>

theorem first_item_priority_is_zero:
  "fst (hd (open_set (initial_state ends_grid (0, 0) (1, 1))))
     \<noteq> enat (nat (manhattan_distance (get_pos (node_at ends_grid (0, 0)))
                                     (get_pos (node_at ends_grid (1, 1)))))
   \<and> fst (hd (open_set (initial_state ends_grid (0, 0) (1, 1)))) = 0
   \<and> manhattan_distance (get_pos (node_at ends_grid (0, 0)))
                         (get_pos (node_at ends_grid (1, 1))) = 2"
  by code_simp

text \<open>
  C5. When the events of the first round hold the quit event or the key Q, the run
  returns at line 290: nothing was taken from the queue, no neighbour was looked at, and
  the grid is the one the run began with.
\<close>

theorem cancel_before_first_pop:
  assumes "list_ex stops_search evs"
  shows "generate_path g (Some s) (Some e) (evs # polls)
           = Some (Inr \<lparr>outcome = Cancelled, path = [], final = initial_state g s e\<rparr>)
         \<and> cells (initial_state g s e) = g
         \<and> relaxations (initial_state g s e) = 0
         \<and> popped (initial_state g s e) = []
         \<and> origin_node (initial_state g s e) = Map.empty
         \<and> open_set (initial_state g s e) = [(0, 0, s)]"
proof -
  have "open_set (initial_state g s e) \<noteq> []"
    by (simp add: initial_state_def)
  then have "astar_loop s e (evs # polls) (initial_state g s e)
           = Some (Inr \<lparr>outcome = Cancelled, path = [], final = initial_state g s e\<rparr>)"
    using assms by (subst astar_loop.simps) (simp add: astar_step_def)
  then show ?thesis
    by (simp add: generate_path_def) (simp add: initial_state_def)
qed

theorem cancel_before_first_pop_witness:
  "list_ex stops_search [OTHER, KEYDOWN K_q]
   \<and> generate_path ends_grid (Some (0, 0)) (Some (1, 1)) [[OTHER, KEYDOWN K_q], []]
       = Some (Inr \<lparr>outcome = Cancelled, path = [],
                    final = initial_state ends_grid (0, 0) (1, 1)\<rparr>)
   \<and> cells (initial_state ends_grid (0, 0) (1, 1)) = ends_grid"
  using cancel_before_first_pop [of "[OTHER, KEYDOWN K_q]" ends_grid "(0, 0)" "(1, 1)" "[[]]"]
  by simp

lemma generate_path_without_start:
  "generate_path g None e polls = Some (Inl AttributeError)"
  by (simp add: generate_path_def)

lemma generate_path_without_end:
  "generate_path g (Some s) None polls = Some (Inl AttributeError)"
  by (simp add: generate_path_def)

text \<open>
  C6 does not hold of the code. \<^verbatim>\<open>main\<close> has no test that start and end are set before
  it runs the reset loop and calls \<^verbatim>\<open>generate_path\<close>. On the grid \<open>stale_grid\<close>, with
  the start node unset, the reset loop turns the closed node (0, 1) white, and the search
  raises \<^verbatim>\<open>AttributeError\<close> at line 284; the same with the end node unset, or both.
\<close>

theorem space_without_start_or_end:
  "space_pressed stale_grid None (Some (1, 1)) [] = Some (Inl AttributeError)
   \<and> space_pressed stale_grid (Some (0, 0)) None [] = Some (Inl AttributeError)
   \<and> space_pressed stale_grid None None [] = Some (Inl AttributeError)
   \<and> is_closed (node_at stale_grid (0, 1))
   \<and> \<not> isl (reset_for_new_run stale_grid)
   \<and> color (node_at (projr (reset_for_new_run stale_grid)) (0, 1)) = White"
proof -
  have r: "\<not> isl (reset_for_new_run stale_grid)"
    by code_simp
  then obtain g' where g': "reset_for_new_run stale_grid = Inr g'"
    by (cases "reset_for_new_run stale_grid") simp_all
  have c: "is_closed (node_at stale_grid (0, 1))"
    by code_simp
  have w: "color (node_at (projr (reset_for_new_run stale_grid)) (0, 1)) = White"
    by code_simp
  show ?thesis
    using r c w
    by (simp add: space_pressed_def g' generate_path_without_start generate_path_without_end)
qed

section \<open>The reset before a run, applied twice\<close>

text \<open>
  C7 does not hold of the code. The reset loop skips \<^verbatim>\<open>reset\<close> for barriers, start and
  end, but calls \<^verbatim>\<open>update_neighbors\<close> on them, which appends to the list they have. On
  \<open>ends_grid\<close> the start node has two neighbours after one reset and four after two, so the
  second reset changes the grid, and already the first one changes the start node.
\<close>

theorem reset_twice_differs:
  "\<not> isl (reset_for_new_run ends_grid)
   \<and> \<not> isl (reset_for_new_run (projr (reset_for_new_run ends_grid)))
   \<and> is_start (node_at ends_grid (0, 0))
   \<and> neighbors (node_at ends_grid (0, 0)) = []
   \<and> neighbors (node_at (projr (reset_for_new_run ends_grid)) (0, 0)) = [(1, 0), (0, 1)]
   \<and> neighbors (node_at (projr (reset_for_new_run (projr (reset_for_new_run ends_grid)))) (0, 0))
       = [(1, 0), (0, 1), (1, 0), (0, 1)]
   \<and> projr (reset_for_new_run (projr (reset_for_new_run ends_grid)))
       \<noteq> projr (reset_for_new_run ends_grid)"
  by code_simp

text \<open>
  What the lists that are not cleared lead to: in \<open>rewalled_grid\<close> the start node is walled
  in, yet its list still holds the two nodes that are barriers now, and the next search
  walks over them, repaints them and finds a path.
\<close>

lemma stale_neighbors_cross_barriers:
  "is_barrier (node_at rewalled_grid (0, 1)) \<and> is_barrier (node_at rewalled_grid (1, 0))
   \<and> outcome (projr (the (space_pressed rewalled_grid (Some (0, 0)) (Some (1, 1)) []))) = Found
   \<and> path (projr (the (space_pressed rewalled_grid (Some (0, 0)) (Some (1, 1)) [])))
       = [(1, 0), (0, 0)]
   \<and> is_path (node_at (cells (final (projr (the
         (space_pressed rewalled_grid (Some (0, 0)) (Some (1, 1)) []))))) (1, 0))"
  by code_simp

section \<open>What the reset loop keeps of a grid\<close>

lemma alike_refl [simp]: "alike a a"
  by (simp add: alike_def)

lemma alike_barrier: "alike a b \<Longrightarrow> is_barrier a = is_barrier b"
  by (auto simp: alike_def role_def)

lemma alike_role: "alike a b \<Longrightarrow> role a = role b"
  by (auto simp: alike_def)

lemma alike_grids_length: "alike_grids g1 g2 \<Longrightarrow> length g1 = length g2"
  by (simp add: alike_grids_def list_all2_lengthD)

lemma alike_grids_row_length:
  "alike_grids g1 g2 \<Longrightarrow> i < length g1 \<Longrightarrow> length (g1 ! i) = length (g2 ! i)"
  by (simp add: alike_grids_def list_all2_conv_all_nth)

lemma alike_grids_in_grid: "alike_grids g1 g2 \<Longrightarrow> in_grid g1 p = in_grid g2 p"
  using alike_grids_length alike_grids_row_length by (fastforce simp: in_grid_def)

lemma alike_grids_alike:
  "alike_grids g1 g2 \<Longrightarrow> in_grid g1 p \<Longrightarrow> alike (node_at g1 p) (node_at g2 p)"
  by (auto simp: alike_grids_def list_all2_conv_all_nth in_grid_def node_at_def)

lemma alike_gridsI:
  assumes "length g1 = length g2"
    and "\<And>i. i < length g1 \<Longrightarrow> length (g1 ! i) = length (g2 ! i)"
    and "\<And>p. in_grid g1 p \<Longrightarrow> alike (node_at g1 p) (node_at g2 p)"
  shows "alike_grids g1 g2"
  unfolding alike_grids_def list_all2_conv_all_nth
proof (intro conjI allI impI)
  show "length g1 = length g2" by fact
next
  fix i assume "i < length g1"
  then show "length (g1 ! i) = length (g2 ! i)" using assms(2) by blast
next
  fix i j assume "i < length g1" "j < length (g1 ! i)"
  then have "in_grid g1 (i, j)" by (simp add: in_grid_def)
  from assms(3)[OF this] show "alike (g1 ! i ! j) (g2 ! i ! j)" by (simp add: node_at_def)
qed

lemma alike_grids_store:
  assumes "alike_grids g1 g2" "alike n1 n2"
  shows "alike_grids (store g1 p n1) (store g2 p n2)"
proof (rule alike_gridsI)
  show "length (store g1 p n1) = length (store g2 p n2)"
    using assms(1) by (simp add: alike_grids_length)
next
  fix i assume "i < length (store g1 p n1)"
  then show "length (store g1 p n1 ! i) = length (store g2 p n2 ! i)"
    using assms(1) by (simp add: alike_grids_row_length)
next
  fix q assume "in_grid (store g1 p n1) q"
  then have q: "in_grid g1 q" by simp
  show "alike (node_at (store g1 p n1) q) (node_at (store g2 p n2) q)"
    using assms q alike_grids_in_grid[OF assms(1)] alike_grids_alike[OF assms(1) q]
    by (simp add: node_at_store)
qed

lemma py_index_range: "py_index len i = Inr k \<Longrightarrow> k < len"
  by (auto simp: py_index_def split: if_splits)

lemma grid_ref_in_grid: "grid_ref g r c = Inr p \<Longrightarrow> in_grid g p"
  by (auto simp: grid_ref_def in_grid_def split: sum.splits dest: py_index_range)

lemma grid_ref_alike_grids:
  assumes "alike_grids g1 g2"
  shows "grid_ref g1 r c = grid_ref g2 r c"
proof (cases "py_index (length g1) r")
  case (Inl e)
  then show ?thesis using alike_grids_length[OF assms] by (simp add: grid_ref_def)
next
  case (Inr i)
  then have "i < length g1" by (rule py_index_range)
  then have "length (g1 ! i) = length (g2 ! i)" using assms alike_grids_row_length by blast
  with Inr show ?thesis using alike_grids_length[OF assms] by (simp add: grid_ref_def)
qed

lemma append_unless_barrier_alike_grids:
  assumes "alike_grids g1 g2"
  shows "append_unless_barrier g1 r c n = append_unless_barrier g2 r c n"
proof (cases "grid_ref g1 r c")
  case (Inl e)
  then show ?thesis using grid_ref_alike_grids[OF assms, of r c]
    by (simp add: append_unless_barrier_def)
next
  case (Inr p)
  then have "in_grid g1 p" by (rule grid_ref_in_grid)
  then have "is_barrier (node_at g1 p) = is_barrier (node_at g2 p)"
    using assms alike_grids_alike alike_barrier by blast
  with Inr show ?thesis using grid_ref_alike_grids[OF assms, of r c]
    by (simp add: append_unless_barrier_def)
qed

lemma update_neighbors_alike_grids:
  assumes "alike_grids g1 g2"
  shows "update_neighbors n g1 = update_neighbors n g2"
  unfolding update_neighbors_def append_unless_barrier_alike_grids[OF assms] ..

lemma reset_and_update_alike_grids:
  assumes gl: "alike_grids g1 g2" and p: "in_grid g1 p"
  shows "(\<exists>e. reset_and_update g1 p = Inl e \<and> reset_and_update g2 p = Inl e) \<or>
         (\<exists>h1 h2. reset_and_update g1 p = Inr h1 \<and> reset_and_update g2 p = Inr h2 \<and>
            alike_grids h1 h2 \<and> node_at h1 p = node_at h2 p \<and>
            (\<forall>q. in_grid g1 q \<longrightarrow> node_at g1 q = node_at g2 q \<longrightarrow> node_at h1 q = node_at h2 q))"
proof -
  define k1 where "k1 = (if \<not> is_barrier (node_at g1 p) \<and> \<not> is_end (node_at g1 p) \<and> \<not> is_start (node_at g1 p)
      then store g1 p (reset (node_at g1 p)) else g1)"
  define k2 where "k2 = (if \<not> is_barrier (node_at g2 p) \<and> \<not> is_end (node_at g2 p) \<and> \<not> is_start (node_at g2 p)
      then store g2 p (reset (node_at g2 p)) else g2)"
  have p2: "in_grid g2 p" using gl p alike_grids_in_grid by blast
  have al: "alike (node_at g1 p) (node_at g2 p)" using gl p by (rule alike_grids_alike)
  have kl: "alike_grids k1 k2 \<and> node_at k1 p = node_at k2 p"
  proof (cases "role (node_at g1 p)")
    case True
    then have "node_at g1 p = node_at g2 p" using al by (simp add: alike_def)
    with True show ?thesis using gl by (auto simp: k1_def k2_def role_def)
  next
    case False
    then have r2: "\<not> role (node_at g2 p)" using al alike_role by blast
    from False r2 al have "reset (node_at g1 p) = reset (node_at g2 p)" by (simp add: alike_def)
    with False r2 show ?thesis using gl p p2
      by (auto simp: k1_def k2_def role_def node_at_store intro!: alike_grids_store)
  qed
  have keep: "\<And>q. in_grid g1 q \<Longrightarrow> node_at g1 q = node_at g2 q \<Longrightarrow> q \<noteq> p \<Longrightarrow> node_at k1 q = node_at k2 q"
    by (simp add: k1_def k2_def node_at_store)
  have r1: "reset_and_update g1 p = (case update_neighbors (node_at k1 p) k1 of Inl e \<Rightarrow> Inl e | Inr n' \<Rightarrow> Inr (store k1 p n'))"
    unfolding reset_and_update_def k1_def Let_def by (rule refl)
  have r2: "reset_and_update g2 p = (case update_neighbors (node_at k2 p) k2 of Inl e \<Rightarrow> Inl e | Inr n' \<Rightarrow> Inr (store k2 p n'))"
    unfolding reset_and_update_def k2_def Let_def by (rule refl)
  have u: "update_neighbors (node_at k1 p) k1 = update_neighbors (node_at k2 p) k2"
    using kl update_neighbors_alike_grids by simp
  have pk: "in_grid k1 p" "in_grid k2 p" using p p2 by (simp_all add: k1_def k2_def)
  show ?thesis
  proof (cases "update_neighbors (node_at k2 p) k2")
    case (Inl e)
    then show ?thesis using r1 r2 u by simp
  next
    case (Inr n')
    have "alike_grids (store k1 p n') (store k2 p n')"
      using kl by (simp add: alike_grids_store)
    moreover have "node_at (store k1 p n') p = node_at (store k2 p n') p"
      using pk by (simp add: node_at_store)
    moreover have "\<forall>q. in_grid g1 q \<longrightarrow> node_at g1 q = node_at g2 q \<longrightarrow>
        node_at (store k1 p n') q = node_at (store k2 p n') q"
      using keep pk by (auto simp: node_at_store)
    ultimately show ?thesis using r1 r2 u Inr by simp
  qed
qed


lemma reset_and_update_in_grid:
  "reset_and_update g p = Inr h \<Longrightarrow> in_grid h q = in_grid g q"
  by (auto simp: reset_and_update_def Let_def split: sum.splits if_splits)

lemma for_each_reset_alike_grids:
  assumes "alike_grids g1 g2" and "\<forall>p \<in> set ps. in_grid g1 p"
  shows "(\<exists>e. for_each reset_and_update ps g1 = Inl e \<and> for_each reset_and_update ps g2 = Inl e) \<or>
         (\<exists>h1 h2. for_each reset_and_update ps g1 = Inr h1 \<and>
            for_each reset_and_update ps g2 = Inr h2 \<and> alike_grids h1 h2 \<and>
            (\<forall>q. in_grid h1 q = in_grid g1 q) \<and>
            (\<forall>p \<in> set ps. node_at h1 p = node_at h2 p) \<and>
            (\<forall>q. in_grid g1 q \<longrightarrow> node_at g1 q = node_at g2 q \<longrightarrow> node_at h1 q = node_at h2 q))"
  using assms
proof (induction ps arbitrary: g1 g2)
  case Nil
  then show ?case by simp
next
  case (Cons p ps)
  from Cons.prems have p: "in_grid g1 p" by simp
  from reset_and_update_alike_grids[OF Cons.prems(1) p]
  show ?case
  proof (elim disjE exE conjE)
    fix e assume "reset_and_update g1 p = Inl e" "reset_and_update g2 p = Inl e"
    then show ?thesis by simp
  next
    fix k1 k2
    assume k: "reset_and_update g1 p = Inr k1" "reset_and_update g2 p = Inr k2"
      and kl: "alike_grids k1 k2" and kp: "node_at k1 p = node_at k2 p"
      and keep: "\<forall>q. in_grid g1 q \<longrightarrow> node_at g1 q = node_at g2 q \<longrightarrow> node_at k1 q = node_at k2 q"
    have ig: "\<And>q. in_grid k1 q = in_grid g1 q"
      using k(1) by (rule reset_and_update_in_grid)
    have "\<forall>q \<in> set ps. in_grid k1 q" using Cons.prems(2) ig by simp
    from Cons.IH[OF kl this]
    show ?thesis
    proof (elim disjE exE conjE)
      fix e assume "for_each reset_and_update ps k1 = Inl e" "for_each reset_and_update ps k2 = Inl e"
      then show ?thesis using k by simp
    next
      fix h1 h2
      assume h: "for_each reset_and_update ps k1 = Inr h1" "for_each reset_and_update ps k2 = Inr h2"
        and hl: "alike_grids h1 h2" and hg: "\<forall>q. in_grid h1 q = in_grid k1 q"
        and hp: "\<forall>p \<in> set ps. node_at h1 p = node_at h2 p"
        and hk: "\<forall>q. in_grid k1 q \<longrightarrow> node_at k1 q = node_at k2 q \<longrightarrow> node_at h1 q = node_at h2 q"
      have "node_at h1 p = node_at h2 p" using hk kp p ig by blast
      moreover have "\<forall>q. in_grid g1 q \<longrightarrow> node_at g1 q = node_at g2 q \<longrightarrow> node_at h1 q = node_at h2 q"
        using hk keep ig by blast
      ultimately show ?thesis using h k hl hg hp ig by simp
    qed
  qed
qed

lemma set_all_refs: "set (all_refs g) = {p. in_grid g p}"
  by (auto simp: all_refs_def in_grid_def)

lemma all_refs_alike_grids:
  assumes "alike_grids g1 g2"
  shows "all_refs g1 = all_refs g2"
proof -
  have "map (\<lambda>i. map (Pair i) [0..<length (g1 ! i)]) [0..<length g1]
      = map (\<lambda>i. map (Pair i) [0..<length (g2 ! i)]) [0..<length g1]"
    using alike_grids_row_length[OF assms] by simp
  then have "concat (map (\<lambda>i. map (Pair i) [0..<length (g1 ! i)]) [0..<length g1])
      = concat (map (\<lambda>i. map (Pair i) [0..<length (g2 ! i)]) [0..<length g1])"
    by (rule arg_cong)
  then show ?thesis
    unfolding all_refs_def alike_grids_length[OF assms] .
qed

lemma grid_eqI:
  assumes "length g1 = length g2"
    and "\<And>i. i < length g1 \<Longrightarrow> length (g1 ! i) = length (g2 ! i)"
    and "\<And>p. in_grid g1 p \<Longrightarrow> node_at g1 p = node_at g2 p"
  shows "g1 = (g2 :: grid)"
proof (rule nth_equalityI)
  show "length g1 = length g2" by fact
next
  fix i assume i: "i < length g1"
  show "g1 ! i = g2 ! i"
  proof (rule nth_equalityI)
    show "length (g1 ! i) = length (g2 ! i)" using assms(2) i by blast
  next
    fix j assume "j < length (g1 ! i)"
    with i have "in_grid g1 (i, j)" by (simp add: in_grid_def)
    from assms(3)[OF this] show "g1 ! i ! j = g2 ! i ! j" by (simp add: node_at_def)
  qed
qed

lemma reset_for_new_run_alike_grids:
  assumes "alike_grids g1 g2"
  shows "reset_for_new_run g1 = reset_for_new_run g2"
proof -
  have "\<forall>p \<in> set (all_refs g1). in_grid g1 p" by (simp add: set_all_refs)
  from for_each_reset_alike_grids[OF assms this]
  show ?thesis
  proof (elim disjE exE conjE)
    fix e assume "for_each reset_and_update (all_refs g1) g1 = Inl e"
      "for_each reset_and_update (all_refs g1) g2 = Inl e"
    then show ?thesis by (simp add: reset_for_new_run_def all_refs_alike_grids[OF assms])
  next
    fix h1 h2
    assume h: "for_each reset_and_update (all_refs g1) g1 = Inr h1"
      "for_each reset_and_update (all_refs g1) g2 = Inr h2"
      and hl: "alike_grids h1 h2" and hg: "\<forall>q. in_grid h1 q = in_grid g1 q"
      and hp: "\<forall>p \<in> set (all_refs g1). node_at h1 p = node_at h2 p"
    have "h1 = h2"
    proof (rule grid_eqI)
      show "length h1 = length h2" using hl by (rule alike_grids_length)
    next
      fix i assume "i < length h1"
      then show "length (h1 ! i) = length (h2 ! i)" using hl alike_grids_row_length by blast
    next
      fix p assume "in_grid h1 p"
      then have "p \<in> set (all_refs g1)" using hg by (simp add: set_all_refs)
      then show "node_at h1 p = node_at h2 p" using hp by blast
    qed
    then show ?thesis using h by (simp add: reset_for_new_run_def all_refs_alike_grids[OF assms])
  qed
qed

text \<open>
  Two alike grids, whatever marks of earlier runs their other nodes carry, give the same
  run when SPACE is pressed with the same start and end node and the same events. So all
  that a run can depend on, besides the shape of the grid and the places of the barriers,
  the start and the end, is the neighbour lists that the barriers, the start and the end
  node carry from earlier runs.
\<close>

lemma space_pressed_alike_grids:
  assumes "alike_grids g1 g2"
  shows "space_pressed g1 start_node end_node polls = space_pressed g2 start_node end_node polls"
  by (simp add: space_pressed_def reset_for_new_run_alike_grids[OF assms])

lemma space_pressed_marked_grid:
  "alike_grids ends_grid marked_grid \<and> ends_grid \<noteq> marked_grid
   \<and> space_pressed ends_grid (Some (0, 0)) (Some (1, 1)) []
       = space_pressed marked_grid (Some (0, 0)) (Some (1, 1)) []"
proof -
  have l: "alike_grids ends_grid marked_grid"
    by code_simp
  have d: "ends_grid \<noteq> marked_grid"
    by code_simp
  show ?thesis
    using l d space_pressed_alike_grids [OF l, of "Some (0, 0)" "Some (1, 1)" "[]"] by simp
qed

section \<open>Two runs on the same barriers, start and end\<close>

text \<open>
  C3 does not hold of the code. \<open>reopened_grid\<close> and \<open>ends_grid\<close> are the same grid in
  every field but the neighbour lists: the same size, no barrier, the start node at (0, 0),
  the end node at (1, 1), the same colours everywhere. When SPACE is pressed, the reset
  loop leaves the start node of \<open>ends_grid\<close> with the neighbours (1, 0), (0, 1) and the
  start node of \<open>reopened_grid\<close>, whose list was not cleared, with (0, 1), (1, 0), (0, 1).
  Both (1, 0) and (0, 1) enter the queue with the same \<open>f\<close>, in the order of that list, so
  the counts differ: the first search takes (1, 0) from the queue before (0, 1) and marks
  the path through (1, 0), the second takes (0, 1) first and marks the path through (0, 1).
  The order is fixed by the pair of \<open>f\<close> and count in both runs; what differs is the list of
  neighbours, which is not the one of the barriers at the moment the run starts.
\<close>

theorem stale_neighbors_change_order:
  "map (map (\<lambda>n. n\<lparr>neighbors := []\<rparr>)) reopened_grid = ends_grid
   \<and> map (map color) reopened_grid = map (map color) ends_grid
   \<and> neighbors (node_at (projr (reset_for_new_run ends_grid)) (0, 0)) = [(1, 0), (0, 1)]
   \<and> neighbors (node_at (projr (reset_for_new_run reopened_grid)) (0, 0))
       = [(0, 1), (1, 0), (0, 1)]
   \<and> outcome (projr (the (space_pressed ends_grid (Some (0, 0)) (Some (1, 1)) []))) = Found
   \<and> outcome (projr (the (space_pressed reopened_grid (Some (0, 0)) (Some (1, 1)) []))) = Found
   \<and> popped (final (projr (the (space_pressed ends_grid (Some (0, 0)) (Some (1, 1)) []))))
       = [(0, 0), (1, 0), (0, 1), (1, 1)]
   \<and> popped (final (projr (the (space_pressed reopened_grid (Some (0, 0)) (Some (1, 1)) []))))
       = [(0, 0), (0, 1), (1, 0), (1, 1)]
   \<and> path (projr (the (space_pressed ends_grid (Some (0, 0)) (Some (1, 1)) [])))
       = [(1, 0), (0, 0)]
   \<and> path (projr (the (space_pressed reopened_grid (Some (0, 0)) (Some (1, 1)) [])))
       = [(0, 1), (0, 0)]
   \<and> map (map color) (cells (final (projr (the
         (space_pressed ends_grid (Some (0, 0)) (Some (1, 1)) [])))))
       = [[states Start, states Closed], [states Path, states End]]
   \<and> map (map color) (cells (final (projr (the
         (space_pressed reopened_grid (Some (0, 0)) (Some (1, 1)) [])))))
       = [[states Start, states Path], [states Closed, states End]]"
  by code_simp

section \<open>One round of the loop\<close>

lemma astar_step_quiet:
  "\<not> list_ex stops_search evs \<Longrightarrow> astar_step s e evs st = astar_step s e [] st"
  by (simp add: astar_step_def)

lemma astar_step_unfold:
  assumes "open_set st \<noteq> []"
  shows "astar_step s e [] st =
     (if snd (snd (pop_item st)) \<notin> open_set_hash st then Stop (Some (Inl KeyError))
      else if snd (snd (pop_item st)) = e then
        Stop (case reconstruct_path (origin_node (popped_state st)) e (cells (popped_state st)) of
                None \<Rightarrow> None
              | Some (g, marked) \<Rightarrow>
                  Some (Inr \<lparr>outcome = Found, path = marked,
                             final = (popped_state st)\<lparr>cells := paint make_start s
                                                                 (paint make_end e g)\<rparr>\<rparr>))
      else (case for_each (relax e (snd (snd (pop_item st))))
                  (neighbors (node_at (cells (popped_state st)) (snd (snd (pop_item st)))))
                  (popped_state st) of
              Inl err \<Rightarrow> Stop (Some (Inl err))
            | Inr st2 \<Rightarrow> Continue (closed_state s e (snd (snd (pop_item st))) st2)))"
proof (cases "open_set st")
  case Nil
  then show ?thesis using assms by simp
next
  case (Cons a list)
  show ?thesis
    unfolding astar_step_def pop_item_def popped_state_def closed_state_def Let_def Cons
    by (simp only: list.case list.sel list_ex_Nil_iff if_False)
qed

lemma relax_eq:
  assumes "g_score st cur = Some gc" and "g_score st nb = Some gn"
  shows "relax e cur st nb =
     Inr (if gc + 1 < gn
          then (if nb \<notin> open_set_hash st then pushed e cur (gc + 1) st nb
                else improved e cur (gc + 1) st nb)
          else st)"
  using assms by (simp add: relax_def Let_def pushed_def improved_def new_f_def)

lemma relax_KeyError:
  "g_score st cur = None \<or> g_score st nb = None \<Longrightarrow> relax e cur st nb = Inl KeyError"
  by (auto simp: relax_def split: option.splits)

text \<open>The loop rule: an invariant and a well-founded relation give a result of the run.\<close>

lemma astar_loop_rule:
  assumes wf: "wf R"
    and inv: "I st"
    and quiet: "\<forall>evs \<in> set polls. \<not> list_ex stops_search evs"
    and step: "\<And>st st'. I st \<Longrightarrow> open_set st \<noteq> [] \<Longrightarrow> astar_step s e [] st = Continue st'
                 \<Longrightarrow> I st' \<and> (st', st) \<in> R"
    and stop: "\<And>st r. I st \<Longrightarrow> open_set st \<noteq> [] \<Longrightarrow> astar_step s e [] st = Stop r \<Longrightarrow> Q r"
    and exit: "\<And>st. I st \<Longrightarrow> open_set st = []
                 \<Longrightarrow> Q (Some (Inr \<lparr>outcome = Exhausted, path = [], final = st\<rparr>))"
  shows "Q (astar_loop s e polls st)"
  using inv quiet
proof (induction st arbitrary: polls rule: wf_induct_rule [OF wf])
  case (1 st)
  show ?case
  proof (cases "open_set st = []")
    case True
    then show ?thesis using exit [OF "1.prems"(1)] by (subst astar_loop.simps) simp
  next
    case False
    define evs where "evs = (case polls of [] \<Rightarrow> [] | x # _ \<Rightarrow> x)"
    have "\<not> list_ex stops_search evs"
      using "1.prems"(2) by (cases polls) (simp_all add: evs_def)
    then have q: "astar_step s e evs st = astar_step s e [] st"
      by (rule astar_step_quiet)
    have tl: "\<forall>evs \<in> set (tl polls). \<not> list_ex stops_search evs"
      using "1.prems"(2) by (cases polls) simp_all
    have unfold: "astar_loop s e polls st =
        (case astar_step s e [] st of Stop r \<Rightarrow> r
         | Continue st' \<Rightarrow> astar_loop s e (tl polls) st')"
      using False q by (subst astar_loop.simps) (simp add: evs_def)
    show ?thesis
    proof (cases "astar_step s e [] st")
      case (Stop r)
      then show ?thesis using unfold stop [OF "1.prems"(1) False] by simp
    next
      case (Continue st')
      from step [OF "1.prems"(1) False Continue] have "I st'" "(st', st) \<in> R" by simp_all
      from "1.IH" [OF this(2) this(1) tl] show ?thesis using unfold Continue by simp
    qed
  qed
qed

section \<open>The invariants of the loop\<close>

declare split_paired_All [simp del]
declare split_paired_Ex [simp del]

lemma frame_refl [simp]: "frame g g"
  by (simp add: frame_def)

lemma frame_paint:
  assumes "frame g0 g" and "\<And>n. neighbors (m n) = neighbors n" and "\<And>n. get_pos (m n) = get_pos n"
  shows "frame g0 (paint m p g)"
  using assms(1) by (auto simp: frame_def node_at_paint assms(2,3))

lemma frame_paint_open: "frame g0 g \<Longrightarrow> frame g0 (paint make_open p g)"
  by (rule frame_paint) (simp_all add: make_open_def get_pos_def)

lemma frame_paint_closed: "frame g0 g \<Longrightarrow> frame g0 (paint make_closed p g)"
  by (rule frame_paint) (simp_all add: make_closed_def get_pos_def)

lemma frame_paint_end: "frame g0 g \<Longrightarrow> frame g0 (paint make_end p g)"
  by (rule frame_paint) (simp_all add: make_end_def get_pos_def)

lemma improved_fields [simp]:
  "cells (improved e cur t st nb) = cells st"
  "count (improved e cur t st nb) = count st"
  "origin_node (improved e cur t st nb) = (origin_node st)(nb \<mapsto> cur)"
  "open_set (improved e cur t st nb) = open_set st"
  "open_set_hash (improved e cur t st nb) = open_set_hash st"
  "g_score (improved e cur t st nb) = (g_score st)(nb \<mapsto> t)"
  "popped (improved e cur t st nb) = popped st"
  by (simp_all add: improved_def)

lemma pushed_fields [simp]:
  "cells (pushed e cur t st nb) = paint make_open nb (cells st)"
  "count (pushed e cur t st nb) = count st + 1"
  "origin_node (pushed e cur t st nb) = (origin_node st)(nb \<mapsto> cur)"
  "open_set (pushed e cur t st nb) = open_set st @ [(new_f e t st nb, count st + 1, nb)]"
  "open_set_hash (pushed e cur t st nb) = insert nb (open_set_hash st)"
  "g_score (pushed e cur t st nb) = (g_score st)(nb \<mapsto> t)"
  "popped (pushed e cur t st nb) = popped st"
  by (simp_all add: pushed_def improved_def)

lemma popped_state_fields [simp]:
  "cells (popped_state st) = cells st"
  "count (popped_state st) = count st"
  "origin_node (popped_state st) = origin_node st"
  "open_set (popped_state st) = remove1 (pop_item st) (open_set st)"
  "open_set_hash (popped_state st) = open_set_hash st - {snd (snd (pop_item st))}"
  "g_score (popped_state st) = g_score st"
  "popped (popped_state st) = popped st @ [snd (snd (pop_item st))]"
  by (simp_all add: popped_state_def)

lemma closed_state_fields [simp]:
  "cells (closed_state s e cur st) =
     paint make_end e (if cur \<noteq> s then paint make_closed cur (cells st) else cells st)"
  "count (closed_state s e cur st) = count st"
  "origin_node (closed_state s e cur st) = origin_node st"
  "open_set (closed_state s e cur st) = open_set st"
  "open_set_hash (closed_state s e cur st) = open_set_hash st"
  "g_score (closed_state s e cur st) = g_score st"
  "popped (closed_state s e cur st) = popped st"
  by (simp_all add: closed_state_def)

lemma seen_cong: "g_score st' = g_score st \<Longrightarrow> seen st' = seen st"
  by (simp add: seen_def fun_eq_iff)

lemma seen_popped_state [simp]: "seen (popped_state st) = seen st"
  by (rule seen_cong) simp

lemma seen_closed_state [simp]: "seen (closed_state s e cur st) = seen st"
  by (rule seen_cong) simp

lemma seen_improved [simp]: "seen (improved e cur (enat k) st nb) p \<longleftrightarrow> p = nb \<or> seen st p"
  by (simp add: seen_def)

lemma seen_pushed [simp]: "seen (pushed e cur (enat k) st nb) p \<longleftrightarrow> p = nb \<or> seen st p"
  by (simp add: seen_def)

lemma least_entry_in: "least_entry m es \<in> set (m # es)"
  by (induction es arbitrary: m) (auto split: if_splits)

lemma pop_item_in: "open_set st \<noteq> [] \<Longrightarrow> pop_item st \<in> set (open_set st)"
  using least_entry_in [of "hd (open_set st)" "tl (open_set st)"]
  by (cases "open_set st") (simp_all add: pop_item_def)

lemma relax_seen_eq:
  assumes "g_score st cur = Some (enat k)" and "g_score st nb = Some gn"
  shows "relax e cur st nb =
     Inr (if enat (Suc k) < gn
          then (if nb \<notin> open_set_hash st then pushed e cur (enat (Suc k)) st nb
                else improved e cur (enat (Suc k)) st nb)
          else st)"
  using relax_eq [OF assms, of e] by (simp add: one_enat_def)

lemma remove1_map_distinct:
  assumes "distinct (map f xs)" and "x \<in> set xs"
  shows "set (map f (remove1 x xs)) = set (map f xs) - {f x} \<and> distinct (map f (remove1 x xs))"
  using assms
proof (induction xs)
  case Nil
  then show ?case by simp
next
  case (Cons a xs)
  show ?case
  proof (cases "x = a")
    case True
    with Cons.prems show ?thesis by auto
  next
    case False
    with Cons.prems have "x \<in> set xs" "distinct (map f xs)" by simp_all
    from Cons.IH [OF this(2) this(1)] Cons.prems False show ?thesis by auto
  qed
qed

lemma inv_popped:
  assumes i: "inv g0 s e {} st" and ne: "open_set st \<noteq> []"
  shows "snd (snd (pop_item st)) \<in> open_set_hash st"
    and "seen st (snd (snd (pop_item st)))"
    and "inv g0 s e {snd (snd (pop_item st))} (popped_state st)"
proof -
  have q: "set (map (snd \<circ> snd) (open_set st)) = open_set_hash st"
    "distinct (map (snd \<circ> snd) (open_set st))" "\<forall>p \<in> open_set_hash st. seen st p"
    using i by (simp_all add: inv_def inv_queue_def)
  have mem: "pop_item st \<in> set (open_set st)" using ne by (rule pop_item_in)
  then have "(snd \<circ> snd) (pop_item st) \<in> set (map (snd \<circ> snd) (open_set st))"
    by force
  then show h: "snd (snd (pop_item st)) \<in> open_set_hash st" using q(1) by simp
  then show "seen st (snd (snd (pop_item st)))" using q(3) by blast
  have rm: "set (map (snd \<circ> snd) (remove1 (pop_item st) (open_set st)))
      = open_set_hash st - {snd (snd (pop_item st))}"
    "distinct (map (snd \<circ> snd) (remove1 (pop_item st) (open_set st)))"
    using remove1_map_distinct [OF q(2) mem] q(1) by simp_all
  have 1: "inv_queue (popped_state st)"
    using rm q(3) by (simp add: inv_queue_def)
  have 2: "inv_scores g0 s (popped_state st)"
    using i by (simp add: inv_def inv_scores_def)
  have 3: "inv_closed g0 e {snd (snd (pop_item st))} (popped_state st)"
    using i by (auto simp: inv_def inv_closed_def)
  have 4: "inv_marks g0 s e {snd (snd (pop_item st))} (popped_state st)"
    using i by (auto simp: inv_def inv_marks_def)
  show "inv g0 s e {snd (snd (pop_item st))} (popped_state st)"
    using 1 2 3 4 by (simp add: inv_def)
qed

lemma shrinks_refl [simp]: "shrinks g0 st st"
  by (simp add: shrinks_def)

lemma shrinks_trans:
  assumes "shrinks g0 st st1" and "shrinks g0 st1 st2"
  shows "shrinks g0 st st2"
proof -
  have le: "\<forall>p. score st2 p \<le> score st p"
    using assms by (meson order_trans shrinks_def)
  have "(\<exists>p. in_grid g0 p \<and> score st2 p < score st p)
      \<or> (g_score st2 = g_score st \<and> open_set st2 = open_set st)"
  proof (cases "\<exists>p. in_grid g0 p \<and> score st1 p < score st p")
    case True
    then obtain p where "in_grid g0 p" "score st1 p < score st p" by blast
    moreover have "score st2 p \<le> score st1 p" using assms(2) by (simp add: shrinks_def)
    ultimately show ?thesis using le_less_trans by blast
  next
    case False
    then have eq: "g_score st1 = g_score st" "open_set st1 = open_set st"
      using assms(1) by (auto simp: shrinks_def)
    then have "score st1 = score st" by (simp add: score_def fun_eq_iff)
    with eq assms(2) show ?thesis by (auto simp: shrinks_def)
  qed
  with le show ?thesis by (simp add: shrinks_def)
qed

lemma shrinks_update:
  assumes "g_score st nb = Some gn" and "t < gn" and "in_grid g0 nb"
    and "g_score st' = (g_score st)(nb \<mapsto> t)"
  shows "shrinks g0 st st'"
  unfolding shrinks_def
proof (intro conjI allI disjI1)
  fix p show "score st' p \<le> score st p"
    using assms by (cases "p = nb") (simp_all add: score_def)
next
  have "score st' nb < score st nb" using assms by (simp add: score_def)
  then show "\<exists>p. in_grid g0 p \<and> score st' p < score st p" using assms(3) by blast
qed

lemma inv_scores_update:
  assumes i: "inv_scores g0 s st"
    and cur: "g_score st cur = Some (enat k)" "linked g0 s cur"
    and nb: "nb \<in> set (neighbors (node_at g0 cur))" "in_grid g0 nb"
      "g_score st nb = Some gn" "enat (Suc k) < gn"
    and st': "g_score st' = (g_score st)(nb \<mapsto> enat (Suc k))"
      "origin_node st' = (origin_node st)(nb \<mapsto> cur)" "frame g0 (cells st')"
  shows "inv_scores g0 s st'"
proof -
  have s0: "g_score st s = Some 0" using i by (simp add: inv_scores_def)
  have nbs: "nb \<noteq> s" using s0 nb(3,4) by (auto simp: zero_enat_def)
  have nbc: "nb \<noteq> cur" using cur(1) nb(3,4) by auto
  have seen': "\<And>p. seen st' p \<longleftrightarrow> p = nb \<or> seen st p"
    by (simp add: seen_def st'(1))
  have lk: "linked g0 s nb" using cur(2) nb(1) by (rule linked_step)
  have a: "\<forall>p. in_grid g0 p \<longleftrightarrow> g_score st' p \<noteq> None"
    using i nb(2) by (simp add: inv_scores_def st'(1))
  have b: "g_score st' s = Some 0" using s0 nbs by (simp add: st'(1))
  have c: "\<forall>p. seen st' p \<longrightarrow> linked g0 s p"
    using i lk by (auto simp: inv_scores_def seen')
  have d: "\<forall>p q. origin_node st' p = Some q \<longrightarrow>
      (\<exists>a b. g_score st' p = Some (enat a) \<and> g_score st' q = Some (enat b) \<and> b < a)"
  proof (intro allI impI)
    fix p q assume o: "origin_node st' p = Some q"
    show "\<exists>a b. g_score st' p = Some (enat a) \<and> g_score st' q = Some (enat b) \<and> b < a"
    proof (cases "p = nb")
      case True
      with o have "q = cur" by (simp add: st'(2))
      with True cur(1) nbc show ?thesis by (simp add: st'(1))
    next
      case False
      with o have "origin_node st p = Some q" by (simp add: st'(2))
      then obtain a b where ab: "g_score st p = Some (enat a)" "g_score st q = Some (enat b)" "b < a"
        using i unfolding inv_scores_def by blast
      show ?thesis
      proof (cases "q = nb")
        case True
        with ab(2) nb(3,4) have "Suc k < b" by simp
        with ab True False show ?thesis by (auto simp: st'(1))
      next
        case q: False
        with ab False show ?thesis by (auto simp: st'(1))
      qed
    qed
  qed
  show ?thesis using a b c d st'(3) by (simp add: inv_scores_def)
qed

lemma relaxed_to_trans:
  "relaxed_to g0 cur k st st1 \<Longrightarrow> relaxed_to g0 cur k st1 st2 \<Longrightarrow> relaxed_to g0 cur k st st2"
  using shrinks_trans by (auto simp: relaxed_to_def)

lemma relax_inv:
  assumes i: "inv g0 s e X st"
    and cur: "g_score st cur = Some (enat k)"
    and nb: "nb \<in> set (neighbors (node_at g0 cur))" "in_grid g0 nb"
  shows "\<exists>st'. relax e cur st nb = Inr st' \<and> inv g0 s e X st' \<and> seen st' nb
           \<and> relaxed_to g0 cur k st st'"
proof -
  have iq: "inv_queue st" and isc: "inv_scores g0 s st" and ic: "inv_closed g0 e X st"
    and im: "inv_marks g0 s e X st"
    using i by (simp_all add: inv_def)
  have fr: "frame g0 (cells st)" using isc by (simp add: inv_scores_def)
  have "g_score st nb \<noteq> None" using isc nb(2) by (simp add: inv_scores_def)
  then obtain gn where gn: "g_score st nb = Some gn" by blast
  have lk: "linked g0 s cur" using isc cur by (auto simp: inv_scores_def seen_def)
  note eq = relax_seen_eq [OF cur gn, of e]
  show ?thesis
  proof (cases "enat (Suc k) < gn")
    case False
    then obtain j where "gn = enat j" by (cases gn) simp_all
    then have "seen st nb" using gn by (simp add: seen_def)
    then show ?thesis using eq False i cur by (simp add: relaxed_to_def)
  next
    case True
    have nbc: "nb \<noteq> cur" using cur gn True by auto
    have s0: "g_score st s = Some 0" using isc by (simp add: inv_scores_def)
    have nbs: "nb \<noteq> s" using s0 gn True by (auto simp: zero_enat_def)
    show ?thesis
    proof (cases "nb \<in> open_set_hash st")
      case h: True
      define st' where "st' = improved e cur (enat (Suc k)) st nb"
      have r: "relax e cur st nb = Inr st'" using eq True h by (simp add: st'_def)
      have sn: "seen st nb" using iq h by (simp add: inv_queue_def)
      then have seen': "\<And>p. seen st' p = seen st p" by (auto simp: st'_def)
      have 1: "inv_queue st'" using iq by (simp add: inv_queue_def st'_def)
      have 2: "inv_scores g0 s st'"
        by (rule inv_scores_update [OF isc cur lk nb gn True]) (simp_all add: st'_def fr)
      have 3: "inv_closed g0 e X st'"
        using ic by (simp add: inv_closed_def seen') (simp add: st'_def)
      have 4: "inv_marks g0 s e X st'"
        using im by (simp add: inv_marks_def seen') (simp add: st'_def)
      have 5: "shrinks g0 st st'"
        by (rule shrinks_update [OF gn True nb(2)]) (simp add: st'_def)
      have 6: "relaxed_to g0 cur k st st'"
        using 5 cur nbc by (simp add: relaxed_to_def seen') (simp add: st'_def)
      show ?thesis using r 1 2 3 4 6 sn by (simp add: inv_def seen')
    next
      case h: False
      define st' where "st' = pushed e cur (enat (Suc k)) st nb"
      have r: "relax e cur st nb = Inr st'" using eq True h by (simp add: st'_def)
      have seen': "\<And>p. seen st' p \<longleftrightarrow> p = nb \<or> seen st p" by (simp add: st'_def)
      have ing: "in_grid (cells st) nb" using fr nb(2) by (simp add: frame_def)
      have 1: "inv_queue st'"
        using iq h by (auto simp: inv_queue_def st'_def)
      have 2: "inv_scores g0 s st'"
        by (rule inv_scores_update [OF isc cur lk nb gn True])
           (simp_all add: st'_def fr frame_paint_open)
      have 3: "inv_closed g0 e X st'"
        using ic by (auto simp: inv_closed_def seen') (auto simp: st'_def)
      have 4: "inv_marks g0 s e X st'"
        unfolding inv_marks_def
      proof (intro conjI allI impI)
        fix p assume p: "seen st' p" "p \<noteq> s" "p \<noteq> e" "p \<notin> X"
        show "color (node_at (cells st') p)
            = (if p \<in> open_set_hash st' then states Open else states Closed)"
        proof (cases "p = nb")
          case True
          then show ?thesis using ing by (simp add: st'_def node_at_paint make_open_def)
        next
          case False
          with p have "seen st p" by (simp add: seen')
          with im p False show ?thesis by (simp add: inv_marks_def st'_def node_at_paint)
        qed
      next
        assume "s \<noteq> e"
        then show "color (node_at (cells st') s) = color (node_at g0 s)"
          using im nbs by (simp add: inv_marks_def st'_def node_at_paint)
      next
        fix p assume "is_path (node_at (cells st') p)"
        then show "is_path (node_at g0 p)"
          using im by (auto simp: inv_marks_def st'_def node_at_paint is_path_def make_open_def
              split: if_splits)
      qed
      have 5: "shrinks g0 st st'"
        by (rule shrinks_update [OF gn True nb(2)]) (simp add: st'_def)
      have 6: "relaxed_to g0 cur k st st'"
        using 5 cur nbc by (simp add: relaxed_to_def seen') (simp add: st'_def)
      show ?thesis using r 1 2 3 4 6 by (simp add: inv_def seen')
    qed
  qed
qed

lemma for_each_relax_inv:
  assumes "inv g0 s e X st" and "g_score st cur = Some (enat k)"
    and "set ns \<subseteq> set (neighbors (node_at g0 cur))" and "\<forall>q \<in> set ns. in_grid g0 q"
  shows "\<exists>st'. for_each (relax e cur) ns st = Inr st' \<and> inv g0 s e X st'
           \<and> (\<forall>q \<in> set ns. seen st' q) \<and> relaxed_to g0 cur k st st'"
  using assms
proof (induction ns arbitrary: st)
  case Nil
  then show ?case by (simp add: relaxed_to_def)
next
  case (Cons n ns)
  from Cons.prems have n: "n \<in> set (neighbors (node_at g0 cur))" "in_grid g0 n" by simp_all
  from relax_inv [OF Cons.prems(1,2) n, of ] obtain st1 where
    st1: "relax e cur st n = Inr st1" "inv g0 s e X st1" "seen st1 n" "relaxed_to g0 cur k st st1"
    by blast
  have g1: "g_score st1 cur = Some (enat k)" using st1(4) by (simp add: relaxed_to_def)
  from Cons.prems have ns: "set ns \<subseteq> set (neighbors (node_at g0 cur))" "\<forall>q \<in> set ns. in_grid g0 q"
    by simp_all
  from Cons.IH [OF st1(2) g1 ns] obtain st2 where
    st2: "for_each (relax e cur) ns st1 = Inr st2" "inv g0 s e X st2"
      "\<forall>q \<in> set ns. seen st2 q" "relaxed_to g0 cur k st1 st2"
    by blast
  have "seen st2 n" using st1(3) st2(4) by (simp add: relaxed_to_def)
  moreover have "relaxed_to g0 cur k st st2" using st1(4) st2(4) by (rule relaxed_to_trans)
  ultimately show ?case using st1(1) st2(1,2,3) by simp
qed

lemma lex_map_less:
  fixes f g :: "'a \<Rightarrow> enat"
  assumes "\<forall>p \<in> set ps. f p \<le> g p" and "\<exists>p \<in> set ps. f p < g p"
  shows "(map f ps, map g ps) \<in> lex {(a, b). a < b}"
  using assms
proof (induction ps)
  case Nil
  then show ?case by simp
next
  case (Cons p ps)
  show ?case
  proof (cases "f p < g p")
    case True
    then show ?thesis by simp
  next
    case False
    with Cons.prems have "f p = g p" "\<exists>p \<in> set ps. f p < g p" by auto
    with Cons show ?thesis by simp
  qed
qed

lemma wf_smaller: "wf (smaller g0)"
  unfolding smaller_def by (intro wf_inv_image wf_lex_prod wf_lex wf wf_less_than)

lemma smallerI:
  assumes "\<forall>p. score st2 p \<le> score st p"
    and "(\<exists>p. in_grid g0 p \<and> score st2 p < score st p)
       \<or> (score st2 = score st \<and> length (open_set st2) < length (open_set st))"
  shows "(st2, st) \<in> smaller g0"
proof (cases "\<exists>p. in_grid g0 p \<and> score st2 p < score st p")
  case True
  then have "\<exists>p \<in> set (all_refs g0). score st2 p < score st p"
    by (simp add: set_all_refs)
  moreover have "\<forall>p \<in> set (all_refs g0). score st2 p \<le> score st p"
    using assms(1) by simp
  ultimately have "(map (score st2) (all_refs g0), map (score st) (all_refs g0))
      \<in> lex {(a, b). a < b}"
    by (rule lex_map_less [rotated])
  then show ?thesis by (simp add: smaller_def)
next
  case False
  with assms(2) show ?thesis by (simp add: smaller_def)
qed

lemma inv_closed_state:
  assumes i: "inv g0 s e {cur} st2" and ce: "cur \<noteq> e" and ch: "cur \<notin> open_set_hash st2"
    and cg: "in_grid g0 cur" and nbs: "\<forall>q \<in> set (neighbors (node_at g0 cur)). seen st2 q"
  shows "inv g0 s e {} (closed_state s e cur st2)"
proof -
  have iq: "inv_queue st2" and isc: "inv_scores g0 s st2" and ic: "inv_closed g0 e {cur} st2"
    and im: "inv_marks g0 s e {cur} st2"
    using i by (simp_all add: inv_def)
  have fr: "frame g0 (cells st2)" using isc by (simp add: inv_scores_def)
  have ing: "in_grid (cells st2) cur" using fr cg by (simp add: frame_def)
  have 1: "inv_queue (closed_state s e cur st2)"
    using iq by (simp add: inv_queue_def)
  have 2: "inv_scores g0 s (closed_state s e cur st2)"
    using isc by (simp add: inv_scores_def frame_paint_end frame_paint_closed)
  have 3: "inv_closed g0 e {} (closed_state s e cur st2)"
    using ic ce nbs by (auto simp: inv_closed_def)
  have 4: "inv_marks g0 s e {} (closed_state s e cur st2)"
    unfolding inv_marks_def
  proof (intro conjI allI impI)
    fix p assume p: "seen (closed_state s e cur st2) p" "p \<noteq> s" "p \<noteq> e" "p \<notin> {}"
    show "color (node_at (cells (closed_state s e cur st2)) p)
        = (if p \<in> open_set_hash (closed_state s e cur st2) then states Open else states Closed)"
    proof (cases "p = cur")
      case True
      then show ?thesis using p ch ing by (simp add: node_at_paint make_closed_def)
    next
      case False
      with im p show ?thesis by (simp add: inv_marks_def node_at_paint)
    qed
  next
    assume "s \<noteq> e"
    then show "color (node_at (cells (closed_state s e cur st2)) s) = color (node_at g0 s)"
      using im by (simp add: inv_marks_def node_at_paint)
  next
    fix p assume "is_path (node_at (cells (closed_state s e cur st2)) p)"
    then show "is_path (node_at g0 p)"
      using im by (auto simp: inv_marks_def node_at_paint is_path_def make_closed_def make_end_def
          split: if_splits)
  qed
  show ?thesis using 1 2 3 4 by (simp add: inv_def)
qed

lemma seen_in_grid: "inv_scores g0 s st \<Longrightarrow> seen st p \<Longrightarrow> in_grid g0 p"
  by (auto simp: inv_scores_def seen_def)

text \<open>The pass over the neighbours of the node taken from the queue.\<close>

lemma pass_inv:
  assumes cg: "closed_graph g0" and i: "inv g0 s e {} st" and ne: "open_set st \<noteq> []"
  shows "\<exists>st2. for_each (relax e (snd (snd (pop_item st))))
            (neighbors (node_at (cells (popped_state st)) (snd (snd (pop_item st)))))
            (popped_state st) = Inr st2
          \<and> inv g0 s e {snd (snd (pop_item st))} st2
          \<and> (\<forall>q \<in> set (neighbors (node_at g0 (snd (snd (pop_item st))))). seen st2 q)
          \<and> snd (snd (pop_item st)) \<notin> open_set_hash st2
          \<and> shrinks g0 (popped_state st) st2"
proof -
  define cur where "cur = snd (snd (pop_item st))"
  note p = inv_popped [OF i ne, folded cur_def]
  have isc: "inv_scores g0 s st" using i by (simp add: inv_def)
  have cgr: "in_grid g0 cur" using isc p(2) by (rule seen_in_grid)
  obtain k where k: "g_score st cur = Some (enat k)" using p(2) by (auto simp: seen_def)
  have nl: "neighbors (node_at (cells (popped_state st)) cur) = neighbors (node_at g0 cur)"
    using isc by (simp add: inv_scores_def frame_def)
  have "\<forall>q \<in> set (neighbors (node_at g0 cur)). in_grid g0 q"
    using cg cgr by (simp add: closed_graph_def)
  have inb: "\<forall>q \<in> set (neighbors (node_at g0 cur)). in_grid g0 q" by fact
  have gk: "g_score (popped_state st) cur = Some (enat k)" using k by simp
  from for_each_relax_inv [OF p(3) gk subset_refl inb]
  obtain st2 where st2: "for_each (relax e cur) (neighbors (node_at g0 cur)) (popped_state st) = Inr st2"
    "inv g0 s e {cur} st2" "\<forall>q \<in> set (neighbors (node_at g0 cur)). seen st2 q"
    "relaxed_to g0 cur k (popped_state st) st2"
    by auto
  have "cur \<notin> open_set_hash st2" "shrinks g0 (popped_state st) st2"
    using st2(4) by (simp_all add: relaxed_to_def cur_def)
  with st2(1,2,3) show ?thesis unfolding cur_def [symmetric] nl by blast
qed

lemma step_continue:
  assumes cg: "closed_graph g0" and i: "inv g0 s e {} st" and ne: "open_set st \<noteq> []"
    and step: "astar_step s e [] st = Continue st'"
  shows "inv g0 s e {} st' \<and> (st', st) \<in> smaller g0"
proof -
  define cur where "cur = snd (snd (pop_item st))"
  note p = inv_popped [OF i ne, folded cur_def]
  have isc: "inv_scores g0 s st" using i by (simp add: inv_def)
  have cgr: "in_grid g0 cur" using isc p(2) by (rule seen_in_grid)
  from pass_inv [OF cg i ne, folded cur_def] obtain st2 where
    st2: "for_each (relax e cur) (neighbors (node_at (cells (popped_state st)) cur))
            (popped_state st) = Inr st2"
      "inv g0 s e {cur} st2" "\<forall>q \<in> set (neighbors (node_at g0 cur)). seen st2 q"
      "cur \<notin> open_set_hash st2" "shrinks g0 (popped_state st) st2"
    by blast
  from step p(1) st2(1) have ce: "cur \<noteq> e" and st': "st' = closed_state s e cur st2"
    unfolding astar_step_unfold [OF ne] cur_def [symmetric]
    by (auto split: if_splits)
  have 1: "inv g0 s e {} st'"
    unfolding st' using st2(2) ce st2(4) cgr st2(3) by (rule inv_closed_state)
  have le: "\<forall>p. score st' p \<le> score st p"
    using st2(5) by (simp add: shrinks_def score_def st')
  have "(\<exists>p. in_grid g0 p \<and> score st' p < score st p)
      \<or> (score st' = score st \<and> length (open_set st') < length (open_set st))"
  proof (cases "\<exists>p. in_grid g0 p \<and> score st2 p < score (popped_state st) p")
    case True
    then show ?thesis by (simp add: score_def st')
  next
    case False
    with st2(5) have eq: "g_score st2 = g_score (popped_state st)"
      "open_set st2 = open_set (popped_state st)"
      by (auto simp: shrinks_def)
    then have "length (open_set st') = length (open_set st) - 1"
      using pop_item_in [OF ne] by (simp add: st' length_remove1)
    with ne have "length (open_set st') < length (open_set st)"
      by (cases "open_set st") simp_all
    moreover have "score st' = score st" using eq(1) by (simp add: score_def fun_eq_iff st')
    ultimately show ?thesis by simp
  qed
  with le have "(st', st) \<in> smaller g0" by (rule smallerI)
  with 1 show ?thesis by simp
qed

lemma follows_exists:
  assumes "inv_scores g0 s st" and "g_score st p = Some (enat k)"
  shows "\<exists>ms. follows (origin_node st) p ms"
  using assms(2)
proof (induction k arbitrary: p rule: less_induct)
  case (less k)
  show ?case
  proof (cases "origin_node st p")
    case None
    then have "follows (origin_node st) p []" by simp
    then show ?thesis by blast
  next
    case (Some q)
    then obtain a b where "g_score st p = Some (enat a)" "g_score st q = Some (enat b)" "b < a"
      using assms(1) unfolding inv_scores_def by blast
    with less.prems have "b < k" by simp
    from less.IH [OF this \<open>g_score st q = Some (enat b)\<close>] obtain ms
      where "follows (origin_node st) q ms" by blast
    with Some have "follows (origin_node st) p (q # ms)" by simp
    then show ?thesis by blast
  qed
qed

lemma step_stop:
  assumes cg: "closed_graph g0" and i: "inv g0 s e {} st" and ne: "open_set st \<noteq> []"
    and step: "astar_step s e [] st = Stop r"
  shows "snd (snd (pop_item st)) = e \<and>
         (\<exists>ms. follows (origin_node st) e ms \<and>
            r = Some (Inr \<lparr>outcome = Found, path = ms,
                  final = (popped_state st)\<lparr>cells := paint make_start s (paint make_end e
                            (fold (paint make_path) ms (cells st)))\<rparr>\<rparr>))"
proof -
  define cur where "cur = snd (snd (pop_item st))"
  note p = inv_popped [OF i ne, folded cur_def]
  have isc: "inv_scores g0 s st" using i by (simp add: inv_def)
  from pass_inv [OF cg i ne, folded cur_def] obtain st2 where
    st2: "for_each (relax e cur) (neighbors (node_at (cells (popped_state st)) cur))
            (popped_state st) = Inr st2"
    by blast
  from step p(1) st2 have ce: "cur = e"
    unfolding astar_step_unfold [OF ne] cur_def [symmetric]
    by (auto split: if_splits)
  obtain k where "g_score st e = Some (enat k)" using p(2) ce by (auto simp: seen_def)
  from follows_exists [OF isc this] obtain ms where ms: "follows (origin_node st) e ms" by blast
  have "reconstruct_path (origin_node (popped_state st)) e (cells (popped_state st))
      = Some (fold (paint make_path) ms (cells st), ms)"
    using reconstruct_loop_follows [OF ms, of "cells st" "[]"] by (simp add: reconstruct_path_def)
  with step p(1) ce have "r = Some (Inr \<lparr>outcome = Found, path = ms,
                  final = (popped_state st)\<lparr>cells := paint make_start s (paint make_end e
                            (fold (paint make_path) ms (cells st)))\<rparr>\<rparr>)"
    unfolding astar_step_unfold [OF ne] cur_def [symmetric] by simp
  with ce ms show ?thesis unfolding cur_def by blast
qed

lemma inv_initial:
  assumes "in_grid g0 s"
  shows "inv g0 s e {} (initial_state g0 s e)"
proof -
  have seen0: "\<And>p. seen (initial_state g0 s e) p \<longleftrightarrow> p = s"
    by (auto simp: seen_def initial_state_def zero_enat_def)
  have 1: "inv_queue (initial_state g0 s e)"
    by (simp add: inv_queue_def seen0) (simp add: initial_state_def)
  have 2: "inv_scores g0 s (initial_state g0 s e)"
    using assms by (simp add: inv_scores_def seen0 linked_start) (simp add: initial_state_def)
  have 3: "inv_closed g0 e {} (initial_state g0 s e)"
    by (simp add: inv_closed_def seen0) (simp add: initial_state_def)
  have 4: "inv_marks g0 s e {} (initial_state g0 s e)"
    by (simp add: inv_marks_def seen0) (simp add: initial_state_def)
  show ?thesis using 1 2 3 4 by (simp add: inv_def)
qed

text \<open>
  Every run without a stopping event returns, with \<open>Exhausted\<close> or \<open>Found\<close>; the
  invariants, and any further invariant \<open>J\<close> of the rounds, hold of the last state of the
  loop.
\<close>

lemma astar_loop_total:
  assumes cg: "closed_graph g0"
    and quiet: "\<forall>evs \<in> set polls. \<not> list_ex stops_search evs"
    and i0: "inv g0 s e {} st0" and j0: "J st0"
    and jstep: "\<And>st st'. inv g0 s e {} st \<Longrightarrow> J st \<Longrightarrow> open_set st \<noteq> []
                  \<Longrightarrow> astar_step s e [] st = Continue st' \<Longrightarrow> J st'"
  shows "\<exists>res. astar_loop s e polls st0 = Some (Inr res) \<and>
           ((outcome res = Exhausted \<and> path res = [] \<and> open_set (final res) = []
               \<and> inv g0 s e {} (final res) \<and> J (final res))
            \<or> (outcome res = Found \<and>
                 (\<exists>st. inv g0 s e {} st \<and> J st \<and> open_set st \<noteq> []
                    \<and> snd (snd (pop_item st)) = e \<and> follows (origin_node st) e (path res)
                    \<and> final res = (popped_state st)\<lparr>cells := paint make_start s (paint make_end e
                            (fold (paint make_path) (path res) (cells st)))\<rparr>)))"
proof (rule astar_loop_rule [where R = "smaller g0" and I = "\<lambda>st. inv g0 s e {} st \<and> J st"])
  show "wf (smaller g0)" by (rule wf_smaller)
  show "inv g0 s e {} st0 \<and> J st0" using i0 j0 by simp
  show "\<forall>evs \<in> set polls. \<not> list_ex stops_search evs" by fact
next
  fix st st'
  assume "inv g0 s e {} st \<and> J st" "open_set st \<noteq> []" "astar_step s e [] st = Continue st'"
  then show "(inv g0 s e {} st' \<and> J st') \<and> (st', st) \<in> smaller g0"
    using step_continue [OF cg] jstep by blast
next
  fix st r
  assume a: "inv g0 s e {} st \<and> J st" "open_set st \<noteq> []" "astar_step s e [] st = Stop r"
  from step_stop [OF cg _ a(2,3)] a(1) obtain ms where
    "snd (snd (pop_item st)) = e" "follows (origin_node st) e ms"
    "r = Some (Inr \<lparr>outcome = Found, path = ms,
                  final = (popped_state st)\<lparr>cells := paint make_start s (paint make_end e
                            (fold (paint make_path) ms (cells st)))\<rparr>\<rparr>)"
    by blast
  with a(1,2) show "\<exists>res. r = Some (Inr res) \<and>
           ((outcome res = Exhausted \<and> path res = [] \<and> open_set (final res) = []
               \<and> inv g0 s e {} (final res) \<and> J (final res))
            \<or> (outcome res = Found \<and>
                 (\<exists>st. inv g0 s e {} st \<and> J st \<and> open_set st \<noteq> []
                    \<and> snd (snd (pop_item st)) = e \<and> follows (origin_node st) e (path res)
                    \<and> final res = (popped_state st)\<lparr>cells := paint make_start s (paint make_end e
                            (fold (paint make_path) (path res) (cells st)))\<rparr>)))"
    by auto
next
  fix st
  assume "inv g0 s e {} st \<and> J st" "open_set st = []"
  then show "\<exists>res. Some (Inr \<lparr>outcome = Exhausted, path = [], final = st\<rparr>) = Some (Inr res) \<and>
           ((outcome res = Exhausted \<and> path res = [] \<and> open_set (final res) = []
               \<and> inv g0 s e {} (final res) \<and> J (final res))
            \<or> (outcome res = Found \<and>
                 (\<exists>st. inv g0 s e {} st \<and> J st \<and> open_set st \<noteq> []
                    \<and> snd (snd (pop_item st)) = e \<and> follows (origin_node st) e (path res)
                    \<and> final res = (popped_state st)\<lparr>cells := paint make_start s (paint make_end e
                            (fold (paint make_path) (path res) (cells st)))\<rparr>)))"
    by simp
qed

section \<open>Neighbour lists of a well-formed grid\<close>

lemma well_formed_in_grid:
  "well_formed n g \<Longrightarrow> in_grid g p \<longleftrightarrow> fst p < n \<and> snd p < n"
  by (auto simp: well_formed_def in_grid_def list_all_length)

lemma well_formed_fields:
  assumes "well_formed n g" and "in_grid g p"
  shows "row (node_at g p) = int (fst p)" and "column (node_at g p) = int (snd p)"
    and "total_rows (node_at g p) = int n"
  using assms by (simp_all add: well_formed_def list_all_iff set_all_refs)

lemma grid_ref_well_formed:
  assumes "well_formed n g" and "0 \<le> r" "r < int n" "0 \<le> c" "c < int n"
  shows "grid_ref g r c = Inr (nat r, nat c)"
proof -
  have l: "length g = n" using assms(1) by (simp add: well_formed_def)
  have "nat r < n" using assms(2,3) by simp
  then have "length (g ! nat r) = n"
    using assms(1) l by (simp add: well_formed_def list_all_length)
  then show ?thesis using assms(2-5) l by (simp add: grid_ref_def py_index_def)
qed

lemma append_unless_barrier_well_formed:
  assumes "well_formed n g" and "0 \<le> r" "r < int n" "0 \<le> c" "c < int n"
  shows "append_unless_barrier g r c nd =
     Inr (nd\<lparr>neighbors := neighbors nd @ (if is_barrier (node_at g (nat r, nat c)) then []
                                            else [(nat r, nat c)])\<rparr>)"
  using grid_ref_well_formed [OF assms] by (simp add: append_unless_barrier_def)

lemma update_neighbors_well_formed:
  assumes wf: "well_formed n g" and p: "in_grid g (i, j)"
  shows "\<exists>n'. update_neighbors ((node_at g (i, j))\<lparr>neighbors := []\<rparr>) g = Inr n' \<and>
           set (neighbors n') = {q. adjacent (i, j) q \<and> in_grid g q \<and> \<not> is_barrier (node_at g q)}"
proof -
  have ij: "i < n" "j < n" using well_formed_in_grid [OF wf] p by simp_all
  note f = well_formed_fields [OF wf p, simplified]
  define up where "up = (if 0 < i \<and> \<not> is_barrier (node_at g (i - 1, j)) then [(i - 1, j)] else [])"
  define down where "down = (if i + 1 < n \<and> \<not> is_barrier (node_at g (i + 1, j)) then [(i + 1, j)] else [])"
  define left where "left = (if 0 < j \<and> \<not> is_barrier (node_at g (i, j - 1)) then [(i, j - 1)] else [])"
  define right where "right = (if j + 1 < n \<and> \<not> is_barrier (node_at g (i, j + 1)) then [(i, j + 1)] else [])"
  define nd where "nd = (node_at g (i, j))\<lparr>neighbors := []\<rparr>"
  have nf: "row nd = int i" "column nd = int j" "total_rows nd = int n" "neighbors nd = []"
    using f by (simp_all add: nd_def)
  have a1: "(if row nd > 0 then append_unless_barrier g (row nd - 1) (column nd) nd else Inr nd)
      = Inr (nd\<lparr>neighbors := up\<rparr>)"
  proof (cases "0 < i")
    case True
    then have "nat (int i - 1) = i - 1" by simp
    with True ij show ?thesis
      by (simp add: nf append_unless_barrier_well_formed [OF wf] up_def)
  next
    case False
    then show ?thesis by (simp add: nf up_def)
  qed
  define n1 where "n1 = nd\<lparr>neighbors := up\<rparr>"
  have nf1: "row n1 = int i" "column n1 = int j" "total_rows n1 = int n" "neighbors n1 = up"
    using nf by (simp_all add: n1_def)
  have a2: "(if row n1 < total_rows n1 - 1 then append_unless_barrier g (row n1 + 1) (column n1) n1 else Inr n1)
      = Inr (nd\<lparr>neighbors := up @ down\<rparr>)"
  proof (cases "i + 1 < n")
    case True
    then have "nat (int i + 1) = i + 1" by simp
    with True ij show ?thesis
      by (simp add: nf1 append_unless_barrier_well_formed [OF wf] down_def) (simp add: n1_def)
  next
    case False
    then show ?thesis by (simp add: nf1 down_def) (simp add: n1_def)
  qed
  define n2 where "n2 = nd\<lparr>neighbors := up @ down\<rparr>"
  have nf2: "row n2 = int i" "column n2 = int j" "total_rows n2 = int n" "neighbors n2 = up @ down"
    using nf by (simp_all add: n2_def)
  have a3: "(if column n2 > 0 then append_unless_barrier g (row n2) (column n2 - 1) n2 else Inr n2)
      = Inr (nd\<lparr>neighbors := up @ down @ left\<rparr>)"
  proof (cases "0 < j")
    case True
    then have "nat (int j - 1) = j - 1" by simp
    with True ij show ?thesis
      by (simp add: nf2 append_unless_barrier_well_formed [OF wf] left_def) (simp add: n2_def)
  next
    case False
    then show ?thesis by (simp add: nf2 left_def) (simp add: n2_def)
  qed
  define n3 where "n3 = nd\<lparr>neighbors := up @ down @ left\<rparr>"
  have nf3: "row n3 = int i" "column n3 = int j" "total_rows n3 = int n"
    "neighbors n3 = up @ down @ left"
    using nf by (simp_all add: n3_def)
  have a4: "(if column n3 < total_rows n3 - 1 then append_unless_barrier g (row n3) (column n3 + 1) n3 else Inr n3)
      = Inr (nd\<lparr>neighbors := up @ down @ left @ right\<rparr>)"
  proof (cases "j + 1 < n")
    case True
    then have "nat (int j + 1) = j + 1" by simp
    with True ij show ?thesis
      by (simp add: nf3 append_unless_barrier_well_formed [OF wf] right_def) (simp add: n3_def)
  next
    case False
    then show ?thesis by (simp add: nf3 right_def) (simp add: n3_def)
  qed
  have u: "update_neighbors nd g = Inr (nd\<lparr>neighbors := up @ down @ left @ right\<rparr>)"
    unfolding update_neighbors_def a1 sum.case n1_def [symmetric] a2 n2_def [symmetric] a3
      n3_def [symmetric] a4 ..
  have "set (up @ down @ left @ right)
      = {q. adjacent (i, j) q \<and> in_grid g q \<and> \<not> is_barrier (node_at g q)}"
  proof (intro set_eqI iffI)
    fix q assume "q \<in> set (up @ down @ left @ right)"
    then show "q \<in> {q. adjacent (i, j) q \<and> in_grid g q \<and> \<not> is_barrier (node_at g q)}"
      using ij by (auto simp: up_def down_def left_def right_def adjacent_def
          well_formed_in_grid [OF wf] split: if_splits)
  next
    fix q assume "q \<in> {q. adjacent (i, j) q \<and> in_grid g q \<and> \<not> is_barrier (node_at g q)}"
    then have q: "adjacent (i, j) q" "fst q < n" "snd q < n" "\<not> is_barrier (node_at g q)"
      by (simp_all add: well_formed_in_grid [OF wf])
    from q(1) consider "q = (i - 1, j)" "0 < i" | "q = (i + 1, j)" | "q = (i, j - 1)" "0 < j"
      | "q = (i, j + 1)"
      by (cases q) (auto simp: adjacent_def)
    then show "q \<in> set (up @ down @ left @ right)"
      using q(2,3,4) by cases (auto simp: up_def down_def left_def right_def)
  qed
  with u show ?thesis by (simp add: nd_def)
qed

lemma grid_graph_current:
  assumes wf: "well_formed n g" and nc: "neighbors_current g"
  shows "grid_graph g"
  unfolding grid_graph_def
proof (intro allI impI)
  fix p assume p: "in_grid g p"
  obtain i j where ij: "p = (i, j)" by (cases p)
  from update_neighbors_well_formed [OF wf p [unfolded ij]] obtain n' where
    n': "update_neighbors ((node_at g p)\<lparr>neighbors := []\<rparr>) g = Inr n'"
    "set (neighbors n') = {q. adjacent p q \<and> in_grid g q \<and> \<not> is_barrier (node_at g q)}"
    unfolding ij by blast
  have "p \<in> set (all_refs g)" using p by (simp add: set_all_refs)
  with nc have "case update_neighbors ((node_at g p)\<lparr>neighbors := []\<rparr>) g of
      Inl _ \<Rightarrow> False | Inr n' \<Rightarrow> set (neighbors (node_at g p)) = set (neighbors n')"
    by (simp add: neighbors_current_def list_all_iff)
  with n' show "set (neighbors (node_at g p))
      = {q. adjacent p q \<and> in_grid g q \<and> \<not> is_barrier (node_at g q)}"
    by simp
qed

lemma grid_graph_closed: "grid_graph g \<Longrightarrow> closed_graph g"
  by (auto simp: grid_graph_def closed_graph_def)

lemma reachable_in_grid: "reachable g s p \<Longrightarrow> in_grid g p"
  by (induction rule: reachable.induct) simp_all

lemma linked_reachable:
  assumes gg: "grid_graph g" and s: "in_grid g s" "\<not> is_barrier (node_at g s)"
  shows "linked g s p \<longleftrightarrow> reachable g s p"
proof
  assume "linked g s p"
  then show "reachable g s p"
  proof (induction rule: linked.induct)
    case linked_start
    show ?case using s by (rule reachable_start)
  next
    case (linked_step p q)
    have "in_grid g p" using linked_step.IH by (rule reachable_in_grid)
    with gg linked_step.hyps(2) have "adjacent p q" "in_grid g q" "\<not> is_barrier (node_at g q)"
      by (auto simp: grid_graph_def)
    with linked_step.IH show ?case by (rule reachable_step)
  qed
next
  assume "reachable g s p"
  then show "linked g s p"
  proof (induction rule: reachable.induct)
    case reachable_start
    show ?case by (rule linked_start)
  next
    case (reachable_step p q)
    have "in_grid g p" using reachable_step.hyps(1) by (rule reachable_in_grid)
    with gg reachable_step.hyps(2,3,4) have "q \<in> set (neighbors (node_at g p))"
      by (auto simp: grid_graph_def)
    with reachable_step.IH show ?case by (rule linked_step)
  qed
qed

section \<open>A search that cannot reach the end node\<close>

lemma unlinked_exhausted:
  assumes cg: "closed_graph g" and s: "in_grid g s"
    and quiet: "\<forall>evs \<in> set polls. \<not> list_ex stops_search evs"
    and un: "\<not> linked g s e"
  shows "\<exists>res. generate_path g (Some s) (Some e) polls = Some (Inr res)
           \<and> outcome res = Exhausted \<and> path res = [] \<and> open_set (final res) = []
           \<and> (\<forall>p. linked g s p \<longrightarrow> p \<noteq> s \<longrightarrow> is_closed (node_at (cells (final res)) p))
           \<and> color (node_at (cells (final res)) s) = color (node_at g s)
           \<and> (\<forall>p. is_path (node_at (cells (final res)) p) \<longrightarrow> is_path (node_at g p))"
proof -
  from astar_loop_total [OF cg quiet inv_initial [OF s], where J = "\<lambda>_. True" and e = e]
  obtain res where res: "astar_loop s e polls (initial_state g s e) = Some (Inr res)"
    and alt: "(outcome res = Exhausted \<and> path res = [] \<and> open_set (final res) = []
               \<and> inv g s e {} (final res))
            \<or> (outcome res = Found \<and>
                 (\<exists>st. inv g s e {} st \<and> open_set st \<noteq> [] \<and> snd (snd (pop_item st)) = e))"
    by auto
  have nf: "\<not> (\<exists>st. inv g s e {} st \<and> open_set st \<noteq> [] \<and> snd (snd (pop_item st)) = e)"
  proof
    assume "\<exists>st. inv g s e {} st \<and> open_set st \<noteq> [] \<and> snd (snd (pop_item st)) = e"
    then obtain st where st: "inv g s e {} st" "open_set st \<noteq> []" "snd (snd (pop_item st)) = e"
      by blast
    from inv_popped(2) [OF st(1,2)] st(3) have "seen st e" by simp
    with st(1) have "linked g s e" by (simp add: inv_def inv_scores_def)
    with un show False by contradiction
  qed
  with alt have ex: "outcome res = Exhausted" "path res = []" "open_set (final res) = []"
    and i: "inv g s e {} (final res)"
    by auto
  have iq: "inv_queue (final res)" and isc: "inv_scores g s (final res)"
    and ic: "inv_closed g e {} (final res)" and im: "inv_marks g s e {} (final res)"
    using i by (simp_all add: inv_def)
  have h: "open_set_hash (final res) = {}"
    using iq ex(3) by (simp add: inv_queue_def)
  have se: "s \<noteq> e" using un linked_start [of g s] by auto
  have sn: "\<And>p. linked g s p \<Longrightarrow> seen (final res) p"
  proof -
    fix p assume "linked g s p"
    then show "seen (final res) p"
    proof (induction rule: linked.induct)
      case linked_start
      show ?case using isc by (simp add: inv_scores_def seen_def zero_enat_def)
    next
      case (linked_step p q)
      with ic h show ?case by (simp add: inv_closed_def)
    qed
  qed
  have cl: "\<forall>p. linked g s p \<longrightarrow> p \<noteq> s \<longrightarrow> is_closed (node_at (cells (final res)) p)"
  proof (intro allI impI)
    fix p assume p: "linked g s p" "p \<noteq> s"
    then have "p \<noteq> e" using un by blast
    with im sn [OF p(1)] p(2) h show "is_closed (node_at (cells (final res)) p)"
      by (simp add: inv_marks_def is_closed_def)
  qed
  have "color (node_at (cells (final res)) s) = color (node_at g s)"
    using im se by (simp add: inv_marks_def)
  moreover have "\<forall>p. is_path (node_at (cells (final res)) p) \<longrightarrow> is_path (node_at g p)"
    using im by (simp add: inv_marks_def)
  ultimately show ?thesis
    using res ex cl by (simp add: generate_path_def)
qed

text \<open>
  C2, as the code has it. On a well-formed grid with current neighbour lists and without
  path marks (what the search expects of its caller), with a start node that is not a barrier and
  an end node that no sequence of adjacent nodes without barriers connects to it, a run
  without stopping event returns when the queue is empty. Then every node reachable from
  the start other than the start node itself is closed, the start node keeps its colour
  (line 317 does not close it), and no node is a path node.
\<close>

theorem unreachable_end_exhausts:
  assumes "well_formed n g" and "neighbors_current g"
    and "in_grid g s" and "\<not> is_barrier (node_at g s)"
    and "list_all (\<lambda>p. \<not> is_path (node_at g p)) (all_refs g)"
    and "\<not> reachable g s e"
    and "\<forall>evs \<in> set polls. \<not> list_ex stops_search evs"
  shows "\<exists>res. generate_path g (Some s) (Some e) polls = Some (Inr res)
           \<and> outcome res = Exhausted \<and> path res = [] \<and> open_set (final res) = []
           \<and> (\<forall>p. reachable g s p \<longrightarrow> p \<noteq> s \<longrightarrow> is_closed (node_at (cells (final res)) p))
           \<and> color (node_at (cells (final res)) s) = color (node_at g s)
           \<and> (\<forall>p. in_grid g p \<longrightarrow> \<not> is_path (node_at (cells (final res)) p))"
proof -
  have gg: "grid_graph g" using assms(1,2) by (rule grid_graph_current)
  note lr = linked_reachable [OF gg assms(3,4)]
  have "\<not> linked g s e" using assms(6) lr by simp
  from unlinked_exhausted [OF grid_graph_closed [OF gg] assms(3,7) this]
  obtain res where res: "generate_path g (Some s) (Some e) polls = Some (Inr res)"
    "outcome res = Exhausted" "path res = []" "open_set (final res) = []"
    "\<forall>p. linked g s p \<longrightarrow> p \<noteq> s \<longrightarrow> is_closed (node_at (cells (final res)) p)"
    "color (node_at (cells (final res)) s) = color (node_at g s)"
    "\<forall>p. is_path (node_at (cells (final res)) p) \<longrightarrow> is_path (node_at g p)"
    by blast
  have "\<forall>p. in_grid g p \<longrightarrow> \<not> is_path (node_at g p)"
    using assms(5) by (simp add: list_all_iff set_all_refs)
  with res(7) have "\<forall>p. in_grid g p \<longrightarrow> \<not> is_path (node_at (cells (final res)) p)" by blast
  with res(1-6) lr show ?thesis by auto
qed

lemma walled_grid_unreachable: "\<not> reachable walled_grid (0, 0) (1, 1)"
proof
  assume "reachable walled_grid (0, 0) (1, 1)"
  moreover have "reachable walled_grid (0, 0) p \<Longrightarrow> p = (0, 0)" for p
  proof (induction rule: reachable.induct)
    case reachable_start
    show ?case by simp
  next
    case (reachable_step p q)
    have b: "is_barrier (node_at walled_grid (0, 1))" "is_barrier (node_at walled_grid (1, 0))"
      by code_simp+
    from reachable_step.IH reachable_step.hyps(2) have "q = (0, 1) \<or> q = (1, 0)"
      by (cases q) (auto simp: adjacent_def)
    with b reachable_step.hyps(4) show ?case by auto
  qed
  ultimately show False by fastforce
qed

lemma wall_grid_unreachable: "\<not> reachable wall_grid (0, 0) (0, 2)"
proof
  assume "reachable wall_grid (0, 0) (0, 2)"
  moreover have "reachable wall_grid (0, 0) p \<Longrightarrow> snd p = 0" for p
  proof (induction rule: reachable.induct)
    case reachable_start
    show ?case by simp
  next
    case (reachable_step p q)
    have l: "length wall_grid = 3"
      by code_simp
    have b: "is_barrier (node_at wall_grid (0, 1))" "is_barrier (node_at wall_grid (1, 1))"
      "is_barrier (node_at wall_grid (2, 1))"
      by code_simp+
    from reachable_step.hyps(3) l have "fst q = 0 \<or> fst q = 1 \<or> fst q = 2"
      by (auto simp: in_grid_def)
    moreover from reachable_step.IH reachable_step.hyps(2) have "snd q = 0 \<or> snd q = 1"
      by (auto simp: adjacent_def)
    ultimately have "snd q = 0 \<or> q = (0, 1) \<or> q = (1, 1) \<or> q = (2, 1)"
      by (cases q) auto
    with b reachable_step.hyps(4) show ?case by auto
  qed
  ultimately show False by fastforce
qed

lemma wall_grid_reachable:
  "reachable wall_grid (0, 0) (1, 0)" "reachable wall_grid (0, 0) (2, 0)"
proof -
  have i: "in_grid wall_grid (0, 0)" "in_grid wall_grid (1, 0)" "in_grid wall_grid (2, 0)"
    by code_simp+
  have b: "\<not> is_barrier (node_at wall_grid (0, 0))" "\<not> is_barrier (node_at wall_grid (1, 0))"
    "\<not> is_barrier (node_at wall_grid (2, 0))"
    by code_simp+
  have 0: "reachable wall_grid (0, 0) (0, 0)"
    using i(1) b(1) by (rule reachable_start)
  have "adjacent (0, 0) (1, 0)" by (simp add: adjacent_def)
  with 0 show 1: "reachable wall_grid (0, 0) (1, 0)"
    using i(2) b(2) by (rule reachable_step)
  have "adjacent (1, 0) (2, 0)" by (simp add: adjacent_def)
  with 1 show "reachable wall_grid (0, 0) (2, 0)"
    using i(3) b(3) by (rule reachable_step)
qed

theorem unreachable_end_exhausts_witness:
  "well_formed 3 wall_grid \<and> neighbors_current wall_grid \<and> in_grid wall_grid (0, 0)
   \<and> \<not> is_barrier (node_at wall_grid (0, 0))
   \<and> list_all (\<lambda>p. \<not> is_path (node_at wall_grid p)) (all_refs wall_grid)
   \<and> \<not> reachable wall_grid (0, 0) (0, 2)
   \<and> \<not> list_ex stops_search [OTHER]
   \<and> reachable wall_grid (0, 0) (1, 0) \<and> reachable wall_grid (0, 0) (2, 0)
   \<and> (\<exists>res. generate_path wall_grid (Some (0, 0)) (Some (0, 2)) [[OTHER]] = Some (Inr res)
         \<and> outcome res = Exhausted \<and> path res = [] \<and> open_set (final res) = []
         \<and> is_closed (node_at (cells (final res)) (1, 0))
         \<and> is_closed (node_at (cells (final res)) (2, 0))
         \<and> color (node_at (cells (final res)) (0, 0)) = color (node_at wall_grid (0, 0))
         \<and> is_start (node_at (cells (final res)) (0, 0))
         \<and> list_all (\<lambda>p. \<not> is_path (node_at (cells (final res)) p)) (all_refs wall_grid))"
proof -
  have 1: "well_formed 3 wall_grid" by code_simp
  have 2: "neighbors_current wall_grid" by code_simp
  have 3: "in_grid wall_grid (0, 0)" by code_simp
  have 4: "\<not> is_barrier (node_at wall_grid (0, 0))" by code_simp
  have 5: "list_all (\<lambda>p. \<not> is_path (node_at wall_grid p)) (all_refs wall_grid)" by code_simp
  have 7: "\<forall>evs \<in> set [[OTHER]]. \<not> list_ex stops_search evs" by simp
  have 8: "is_start (node_at wall_grid (0, 0))" by code_simp
  from unreachable_end_exhausts [OF 1 2 3 4 5 wall_grid_unreachable 7]
  obtain res where res: "generate_path wall_grid (Some (0, 0)) (Some (0, 2)) [[OTHER]] = Some (Inr res)"
    "outcome res = Exhausted" "path res = []" "open_set (final res) = []"
    and cl: "\<forall>p. reachable wall_grid (0, 0) p \<longrightarrow> p \<noteq> (0, 0)
               \<longrightarrow> is_closed (node_at (cells (final res)) p)"
    and st: "color (node_at (cells (final res)) (0, 0)) = color (node_at wall_grid (0, 0))"
    and np: "\<forall>p. in_grid wall_grid p \<longrightarrow> \<not> is_path (node_at (cells (final res)) p)"
    by blast
  from cl wall_grid_reachable
  have c: "is_closed (node_at (cells (final res)) (1, 0))"
    "is_closed (node_at (cells (final res)) (2, 0))"
    by auto
  from st 8 have s: "is_start (node_at (cells (final res)) (0, 0))"
    by (simp add: is_start_def)
  from np have p: "list_all (\<lambda>p. \<not> is_path (node_at (cells (final res)) p)) (all_refs wall_grid)"
    by (simp add: list_all_iff set_all_refs)
  from res c st s p have "\<exists>res. generate_path wall_grid (Some (0, 0)) (Some (0, 2)) [[OTHER]] = Some (Inr res)
         \<and> outcome res = Exhausted \<and> path res = [] \<and> open_set (final res) = []
         \<and> is_closed (node_at (cells (final res)) (1, 0))
         \<and> is_closed (node_at (cells (final res)) (2, 0))
         \<and> color (node_at (cells (final res)) (0, 0)) = color (node_at wall_grid (0, 0))
         \<and> is_start (node_at (cells (final res)) (0, 0))
         \<and> list_all (\<lambda>p. \<not> is_path (node_at (cells (final res)) p)) (all_refs wall_grid)"
    by blast
  then show ?thesis
    using 1 2 3 4 5 wall_grid_unreachable wall_grid_reachable by simp
qed

text \<open>
  The claim C2 as it is written fails at the start node: it is reachable from itself, and
  when the queue is empty it has the colour of the start, not of a closed node.
\<close>

theorem start_node_not_closed:
  "reachable walled_grid (0, 0) (0, 0)
   \<and> \<not> reachable walled_grid (0, 0) (1, 1)
   \<and> outcome (projr (the (generate_path walled_grid (Some (0, 0)) (Some (1, 1)) []))) = Exhausted
   \<and> \<not> is_closed (node_at (cells (final (projr (the
         (generate_path walled_grid (Some (0, 0)) (Some (1, 1)) []))))) (0, 0))
   \<and> is_start (node_at (cells (final (projr (the
         (generate_path walled_grid (Some (0, 0)) (Some (1, 1)) []))))) (0, 0))"
proof -
  have "in_grid walled_grid (0, 0)" "\<not> is_barrier (node_at walled_grid (0, 0))"
    by code_simp+
  then have r: "reachable walled_grid (0, 0) (0, 0)" by (rule reachable_start)
  have o: "outcome (projr (the (generate_path walled_grid (Some (0, 0)) (Some (1, 1)) [])))
      = Exhausted"
    by code_simp
  have c: "\<not> is_closed (node_at (cells (final (projr (the
         (generate_path walled_grid (Some (0, 0)) (Some (1, 1)) []))))) (0, 0))"
    by code_simp
  have t: "is_start (node_at (cells (final (projr (the
         (generate_path walled_grid (Some (0, 0)) (Some (1, 1)) []))))) (0, 0))"
    by code_simp
  show ?thesis using r walled_grid_unreachable o c t by simp
qed

section \<open>Manhattan distance on the grid\<close>

lemma md_alt:
  "int (md p q) = \<bar>int (fst p) - int (fst q)\<bar> + \<bar>int (snd p) - int (snd q)\<bar>"
  by (simp add: md_def)

lemma md_manhattan:
  "manhattan_distance (int (fst p), int (snd p)) (int (fst q), int (snd q)) = int (md p q)"
  by (simp add: md_def)

lemma md_self [simp]: "md p p = 0"
  using md_alt [of p p] by simp

lemma md_eq_0: "md p q = 0 \<longleftrightarrow> p = q"
  using md_alt [of p q] by (auto simp: prod_eq_iff)

lemma md_triangle: "md s e \<le> md s p + md p e"
  using md_alt [of s e] md_alt [of s p] md_alt [of p e] by linarith

lemma md_adjacent:
  assumes "adjacent p q"
  shows "md s q = Suc (md s p) \<or> md s p = Suc (md s q)"
  using assms md_alt [of s p] md_alt [of s q] unfolding adjacent_def by (elim disjE conjE) linarith+

lemma between_start [simp]: "between s e s"
  by (simp add: between_def)

lemma between_last: "between s e p \<Longrightarrow> md s p = md s e \<Longrightarrow> p = e"
  by (simp add: between_def md_eq_0)

lemma between_closer:
  assumes "between s e p" and "adjacent p q" and "md s p = Suc (md s q)"
  shows "between s e q"
proof -
  from md_adjacent [OF assms(2), of e] have "md e q \<le> Suc (md e p)" by auto
  moreover have "md q e = md e q" "md p e = md e p"
    using md_alt [of q e] md_alt [of e q] md_alt [of p e] md_alt [of e p] by linarith+
  ultimately have "md s q + md q e \<le> md s e" using assms(1,3) by (simp add: between_def)
  with md_triangle [of s e q] show ?thesis by (simp add: between_def)
qed

lemma toward_end:
  assumes b: "between s e p" and ne: "p \<noteq> e"
    and n: "fst p < n" "snd p < n" "fst e < n" "snd e < n"
  shows "\<exists>q. adjacent p q \<and> between s e q \<and> md s q = Suc (md s p) \<and> fst q < n \<and> snd q < n"
proof -
  obtain p1 p2 where p: "p = (p1, p2)" by (cases p)
  obtain e1 e2 where e: "e = (e1, e2)" by (cases e)
  obtain s1 s2 where s: "s = (s1, s2)" by (cases s)
  have B: "\<bar>int s1 - int p1\<bar> + \<bar>int s2 - int p2\<bar> + (\<bar>int p1 - int e1\<bar> + \<bar>int p2 - int e2\<bar>)
      = \<bar>int s1 - int e1\<bar> + \<bar>int s2 - int e2\<bar>"
    using b md_alt [of s p] md_alt [of p e] md_alt [of s e] unfolding between_def p e s
    by simp
  have K: "\<And>q1 q2.
      \<bar>int s1 - int q1\<bar> + \<bar>int s2 - int q2\<bar> = \<bar>int s1 - int p1\<bar> + \<bar>int s2 - int p2\<bar> + 1 \<Longrightarrow>
      \<bar>int q1 - int e1\<bar> + \<bar>int q2 - int e2\<bar> + 1 = \<bar>int p1 - int e1\<bar> + \<bar>int p2 - int e2\<bar> \<Longrightarrow>
      between s e (q1, q2) \<and> md s (q1, q2) = Suc (md s p)"
  proof -
    fix q1 q2
    assume 1: "\<bar>int s1 - int q1\<bar> + \<bar>int s2 - int q2\<bar> = \<bar>int s1 - int p1\<bar> + \<bar>int s2 - int p2\<bar> + 1"
      and 2: "\<bar>int q1 - int e1\<bar> + \<bar>int q2 - int e2\<bar> + 1 = \<bar>int p1 - int e1\<bar> + \<bar>int p2 - int e2\<bar>"
    have "int (md s (q1, q2)) = int (md s p) + 1"
      using 1 md_alt [of s "(q1, q2)"] md_alt [of s p] unfolding p s by simp
    moreover have "int (md (q1, q2) e) + 1 = int (md p e)"
      using 2 md_alt [of "(q1, q2)" e] md_alt [of p e] unfolding p e by simp
    ultimately show "between s e (q1, q2) \<and> md s (q1, q2) = Suc (md s p)"
      using b unfolding between_def by linarith
  qed
  from ne consider "p1 < e1" | "e1 < p1" | "p1 = e1" "p2 < e2" | "p1 = e1" "e2 < p2"
    unfolding p e by force
  then show ?thesis
  proof cases
    case 1
    have "between s e (Suc p1, p2) \<and> md s (Suc p1, p2) = Suc (md s p)"
      using 1 B by (intro K) linarith+
    moreover have "adjacent p (Suc p1, p2)" "Suc p1 < n"
      using 1 n by (simp_all add: adjacent_def p e)
    ultimately show ?thesis using n(2) unfolding p by (intro exI [of _ "(Suc p1, p2)"]) simp
  next
    case 2
    then obtain r where r: "p1 = Suc r" by (cases p1) simp_all
    have "between s e (r, p2) \<and> md s (r, p2) = Suc (md s p)"
      using 2 B r by (intro K) linarith+
    moreover have "adjacent p (r, p2)" "r < n"
      using r n by (simp_all add: adjacent_def p e)
    ultimately show ?thesis using n(2) unfolding p by (intro exI [of _ "(r, p2)"]) simp
  next
    case 3
    have "between s e (p1, Suc p2) \<and> md s (p1, Suc p2) = Suc (md s p)"
      using 3 B by (intro K) linarith+
    moreover have "adjacent p (p1, Suc p2)" "Suc p2 < n"
      using 3 n by (simp_all add: adjacent_def p e)
    ultimately show ?thesis using n(1) unfolding p by (intro exI [of _ "(p1, Suc p2)"]) simp
  next
    case 4
    then obtain r where r: "p2 = Suc r" by (cases p2) simp_all
    have "between s e (p1, r) \<and> md s (p1, r) = Suc (md s p)"
      using 4 B r by (intro K) linarith+
    moreover have "adjacent p (p1, r)" "r < n"
      using r n by (simp_all add: adjacent_def p e)
    ultimately show ?thesis using n(1) unfolding p by (intro exI [of _ "(p1, r)"]) simp
  qed
qed

lemma md_sym: "md p q = md q p"
  using md_alt [of p q] md_alt [of q p] by linarith

lemma between_sym: "between s e p \<longleftrightarrow> between e s p"
  using md_sym [of s p] md_sym [of p e] md_sym [of s e] by (auto simp: between_def)

lemma toward_start:
  assumes b: "between s e p" and ne: "p \<noteq> s"
    and n: "fst p < n" "snd p < n" "fst s < n" "snd s < n"
  shows "\<exists>q. adjacent q p \<and> between s e q \<and> md s p = Suc (md s q) \<and> fst q < n \<and> snd q < n"
proof -
  from toward_end [OF b [unfolded between_sym [of s e]] ne n] obtain q where
    q: "adjacent p q" "between e s q" "md e q = Suc (md e p)" "fst q < n" "snd q < n"
    by blast
  have "adjacent q p" using q(1) by (auto simp: adjacent_def)
  moreover have "between s e q" using q(2) by (simp add: between_sym)
  moreover have "md s p = Suc (md s q)"
  proof -
    have "md e q + md q s = md e s" "md s p + md p e = md s e"
      using q(2) b by (simp_all add: between_def)
    moreover have "md q s = md s q" "md e p = md p e" "md e s = md s e" by (rule md_sym)+
    ultimately show ?thesis using q(3) by linarith
  qed
  ultimately show ?thesis using q(4,5) by blast
qed

section \<open>The order of the queue\<close>

lemma entry_less_trans1: "entry_less a b \<Longrightarrow> \<not> entry_less c b \<Longrightarrow> entry_less a c"
  by (cases a; cases b; cases c) (auto split: if_splits)

lemma entry_less_trans: "entry_less a b \<Longrightarrow> entry_less b c \<Longrightarrow> entry_less a c"
  by (cases a; cases b; cases c) (auto split: if_splits)

lemma entry_less_total: "fst (snd a) \<noteq> fst (snd b) \<Longrightarrow> entry_less a b \<or> entry_less b a"
  by (cases a; cases b) auto

lemma entry_less_fst: "\<not> entry_less a b \<Longrightarrow> fst b \<le> fst a"
  by (cases a; cases b) (auto split: if_splits)

lemma entry_less_irrefl [simp]: "\<not> entry_less a a"
  by (cases a) simp

lemma least_entry_least: "\<forall>y \<in> set (m # es). \<not> entry_less y (least_entry m es)"
proof (induction es arbitrary: m)
  case Nil
  show ?case by simp
next
  case (Cons a es)
  define m' where "m' = (if entry_less a m then a else m)"
  have IH: "\<forall>y \<in> set (m' # es). \<not> entry_less y (least_entry m' es)" by (rule Cons.IH)
  then have m': "\<not> entry_less m' (least_entry m' es)" by simp
  have "\<not> entry_less m (least_entry m' es)"
  proof (cases "entry_less a m")
    case True
    then have "m' = a" by (simp add: m'_def)
    show ?thesis
    proof
      assume "entry_less m (least_entry m' es)"
      with True have "entry_less a (least_entry m' es)" by (rule entry_less_trans)
      with m' \<open>m' = a\<close> show False by simp
    qed
  next
    case False
    then show ?thesis using m' by (simp add: m'_def)
  qed
  moreover have "\<not> entry_less a (least_entry m' es)"
  proof (cases "entry_less a m")
    case True
    then show ?thesis using m' by (simp add: m'_def)
  next
    case False
    then have "m' = m" by (simp add: m'_def)
    show ?thesis
    proof
      assume "entry_less a (least_entry m' es)"
      then have "entry_less a m" using m' unfolding \<open>m' = m\<close> by (rule entry_less_trans1)
      with False show False by contradiction
    qed
  qed
  ultimately show ?case using IH by (simp add: m'_def)
qed

lemma pop_item_least:
  "open_set st \<noteq> [] \<Longrightarrow> \<forall>y \<in> set (open_set st). \<not> entry_less y (pop_item st)"
  using least_entry_least [of "hd (open_set st)" "tl (open_set st)"]
  by (cases "open_set st") (simp_all add: pop_item_def)

section \<open>A search on a grid without barriers\<close>

lemma open_field_neighbors:
  "open_field n g s e \<Longrightarrow> in_grid g p \<Longrightarrow>
   q \<in> set (neighbors (node_at g p)) \<longleftrightarrow> adjacent p q \<and> in_grid g q"
  by (auto simp: open_field_def grid_graph_def)

lemma open_field_bounds:
  assumes "open_field n g s e"
  shows "fst s < n" "snd s < n" "fst e < n" "snd e < n"
  using assms well_formed_in_grid [of n g] by (auto simp: open_field_def)

lemma between_in_grid:
  assumes f: "open_field n g s e" and b: "between s e p"
  shows "in_grid g p"
proof -
  note bd = open_field_bounds [OF f]
  have "int (md s p) + int (md p e) = int (md s e)" using b by (simp add: between_def)
  then have "fst p < n \<and> snd p < n"
    using bd unfolding md_alt by linarith
  then show ?thesis using f well_formed_in_grid [of n g p] by (simp add: open_field_def)
qed

lemma bfs_pop:
  assumes f: "open_field n g s e" and i: "inv g s e {} st" and b: "bfs_head s e st"
    and ne: "open_set st \<noteq> []"
  shows "between s e (snd (snd (pop_item st)))"
    and "g_score st (snd (snd (pop_item st))) = Some (enat (md s (snd (snd (pop_item st)))))"
    and "bfs_pass s e (md s (snd (snd (pop_item st)))) (popped_state st)"
proof -
  define x where "x = pop_item st"
  define cur where "cur = snd (snd x)"
  define k where "k = md s cur"
  have ib: "inv_bfs s e st" using b by (simp add: bfs_head_def)
  have A: "\<And>p j. g_score st p = Some (enat j) \<Longrightarrow> j = md s p"
    using ib by (simp add: inv_bfs_def)
  have B: "\<And>y. y \<in> set (open_set st) \<Longrightarrow> fst (snd y) \<le> count st
            \<and> (between s e (snd (snd y)) \<longrightarrow> fst y \<le> enat (md s e))
            \<and> (\<not> between s e (snd (snd y)) \<longrightarrow> enat (md s e) < fst y)"
    using ib by (simp add: inv_bfs_def)
  have C: "distinct (map (fst \<circ> snd) (open_set st))" using ib by (simp add: inv_bfs_def)
  have O: "\<And>y z. y \<in> set (open_set st) \<Longrightarrow> z \<in> set (open_set st) \<Longrightarrow>
      between s e (snd (snd y)) \<Longrightarrow> between s e (snd (snd z)) \<Longrightarrow>
        (entry_less y z \<longrightarrow> md s (snd (snd y)) \<le> md s (snd (snd z)))
        \<and> md s (snd (snd z)) \<le> Suc (md s (snd (snd y)))"
    using ib unfolding inv_bfs_def by blast
  have E: "\<And>y p. y \<in> set (open_set st) \<Longrightarrow> between s e (snd (snd y)) \<Longrightarrow> between s e p \<Longrightarrow>
      md s p < md s (snd (snd y)) \<Longrightarrow> seen st p"
    using b unfolding bfs_head_def by blast
  have H: "\<And>p y. seen st p \<Longrightarrow> p \<notin> open_set_hash st \<Longrightarrow> y \<in> set (open_set st) \<Longrightarrow>
      between s e (snd (snd y)) \<Longrightarrow> md s p \<le> md s (snd (snd y))"
    using b unfolding bfs_head_def by blast
  obtain z where z: "z \<in> set (open_set st)" "between s e (snd (snd z))"
    using b unfolding bfs_head_def by blast
  have iq: "inv_queue st" and isc: "inv_scores g s st" and ic: "inv_closed g e {} st"
    using i by (simp_all add: inv_def)
  have xin: "x \<in> set (open_set st)" unfolding x_def using ne by (rule pop_item_in)
  have least: "\<And>y. y \<in> set (open_set st) \<Longrightarrow> \<not> entry_less y x"
    unfolding x_def using pop_item_least [OF ne] by blast
  have "fst x \<le> fst z" using least [OF z(1)] by (rule entry_less_fst)
  also have "fst z \<le> enat (md s e)" using B [OF z(1)] z(2) by simp
  finally have "\<not> enat (md s e) < fst x" by simp
  with B [OF xin] show bc: "between s e (snd (snd (pop_item st)))"
    unfolding x_def by blast
  then have bcur: "between s e cur" by (simp add: cur_def x_def)
  have sc: "seen st cur" unfolding cur_def x_def using i ne by (rule inv_popped(2))
  then obtain j where "g_score st cur = Some (enat j)" by (auto simp: seen_def)
  with A [OF this] have gk: "g_score st cur = Some (enat k)" by (simp add: k_def)
  then show "g_score st (snd (snd (pop_item st))) = Some (enat (md s (snd (snd (pop_item st)))))"
    by (simp add: k_def cur_def x_def)
  have P3: "k \<le> md s (snd (snd y)) \<and> md s (snd (snd y)) \<le> Suc k"
    if y: "y \<in> set (open_set st)" "between s e (snd (snd y))" for y
  proof (cases "y = x")
    case True
    then show ?thesis by (simp add: k_def cur_def)
  next
    case False
    have "inj_on (fst \<circ> snd) (set (open_set st))" using C by (simp add: distinct_map)
    with False y(1) xin have "fst (snd x) \<noteq> fst (snd y)" by (auto simp: inj_on_def)
    then have "entry_less x y" using entry_less_total [of x y] least [OF y(1)] by blast
    with O [OF xin y(1)] bcur y(2) show ?thesis by (simp add: k_def cur_def)
  qed
  have P4: "seen st p" if p: "between s e p" "md s p \<le> k" for p
  proof (cases "md s p < k")
    case True
    then show ?thesis using E [OF xin _ p(1)] bcur by (simp add: k_def cur_def)
  next
    case False
    with p(2) have pk: "md s p = k" by simp
    show ?thesis
    proof (cases "p = s")
      case True
      then show ?thesis using isc by (simp add: inv_scores_def seen_def zero_enat_def)
    next
      case ps: False
      have pg: "in_grid g p" using f p(1) by (rule between_in_grid)
      then have pb: "fst p < n" "snd p < n"
        using f well_formed_in_grid [of n g p] by (simp_all add: open_field_def)
      from toward_start [OF p(1) ps pb open_field_bounds(1,2) [OF f]] obtain q where
        q: "adjacent q p" "between s e q" "md s p = Suc (md s q)" by blast
      have qk: "md s q < k" using q(3) pk by simp
      have sq: "seen st q" using E [OF xin _ q(2)] bcur qk by (simp add: k_def cur_def)
      have "q \<notin> open_set_hash st"
      proof
        assume "q \<in> open_set_hash st"
        then have "q \<in> set (map (snd \<circ> snd) (open_set st))" using iq by (simp add: inv_queue_def)
        then obtain y where "y \<in> set (open_set st)" "snd (snd y) = q" by auto
        with P3 [of y] q(2) qk show False by simp
      qed
      with ic sq have "\<forall>r \<in> set (neighbors (node_at g q)). seen st r"
        by (simp add: inv_closed_def)
      moreover have "p \<in> set (neighbors (node_at g q))"
        using open_field_neighbors [OF f between_in_grid [OF f q(2)]] q(1) pg by simp
      ultimately show ?thesis by blast
    qed
  qed
  have sub: "\<And>y. y \<in> set (remove1 x (open_set st)) \<Longrightarrow> y \<in> set (open_set st)"
    using set_remove1_subset [of x "open_set st"] by blast
  have ib': "inv_bfs s e (popped_state st)"
    unfolding inv_bfs_def
  proof (intro conjI)
    show "\<forall>p k. g_score (popped_state st) p = Some (enat k) \<longrightarrow> k = md s p"
      using A by simp
    show "\<forall>y \<in> set (open_set (popped_state st)). fst (snd y) \<le> count (popped_state st)
            \<and> (between s e (snd (snd y)) \<longrightarrow> fst y \<le> enat (md s e))
            \<and> (\<not> between s e (snd (snd y)) \<longrightarrow> enat (md s e) < fst y)"
      using B sub by (simp add: x_def [symmetric])
    show "distinct (map (fst \<circ> snd) (open_set (popped_state st)))"
      using remove1_map_distinct [OF C xin] by (simp add: x_def [symmetric])
    show "\<forall>y \<in> set (open_set (popped_state st)). \<forall>z \<in> set (open_set (popped_state st)).
            between s e (snd (snd y)) \<longrightarrow> between s e (snd (snd z)) \<longrightarrow>
              (entry_less y z \<longrightarrow> md s (snd (snd y)) \<le> md s (snd (snd z)))
              \<and> md s (snd (snd z)) \<le> Suc (md s (snd (snd y)))"
      using O sub by (simp add: x_def [symmetric])
    show "\<forall>p q. origin_node (popped_state st) p = Some q \<longrightarrow> adjacent q p"
      using ib by (simp add: inv_bfs_def)
    show "\<forall>p. seen (popped_state st) p \<longrightarrow> p \<noteq> s \<longrightarrow> origin_node (popped_state st) p \<noteq> None"
      using ib by (simp add: inv_bfs_def)
  qed
  have "bfs_pass s e k (popped_state st)"
    unfolding bfs_pass_def
  proof (intro conjI)
    show "inv_bfs s e (popped_state st)" by (rule ib')
    show "\<forall>y \<in> set (open_set (popped_state st)). between s e (snd (snd y)) \<longrightarrow>
            k \<le> md s (snd (snd y)) \<and> md s (snd (snd y)) \<le> Suc k"
      using P3 sub by (simp add: x_def [symmetric])
    show "\<forall>p. between s e p \<longrightarrow> md s p \<le> k \<longrightarrow> seen (popped_state st) p"
      using P4 by simp
    show "\<forall>p. seen (popped_state st) p \<longrightarrow> p \<notin> open_set_hash (popped_state st) \<longrightarrow> md s p \<le> k"
    proof (intro allI impI)
      fix p assume p: "seen (popped_state st) p" "p \<notin> open_set_hash (popped_state st)"
      show "md s p \<le> k"
      proof (cases "p = cur")
        case True
        then show ?thesis by (simp add: k_def)
      next
        case False
        with p have "seen st p" "p \<notin> open_set_hash st" by (simp_all add: cur_def x_def)
        from H [OF this xin] bcur show ?thesis by (simp add: k_def cur_def)
      qed
    qed
  qed
  then show "bfs_pass s e (md s (snd (snd (pop_item st)))) (popped_state st)"
    by (simp add: k_def cur_def x_def)
qed

lemma new_f_open_field:
  assumes f: "open_field n g s e" and fr: "frame g (cells t)" and ing: "in_grid g nb"
  shows "new_f e (enat j) t nb = enat (j + md nb e)"
proof -
  have wf: "well_formed n g" and eg: "in_grid g e" using f by (simp_all add: open_field_def)
  have "get_pos (node_at (cells t) nb) = (int (fst nb), int (snd nb))"
    using fr well_formed_fields [OF wf ing] by (simp add: frame_def get_pos_def)
  moreover have "get_pos (node_at (cells t) e) = (int (fst e), int (snd e))"
    using fr well_formed_fields [OF wf eg] by (simp add: frame_def get_pos_def)
  ultimately show ?thesis by (simp add: new_f_def md_def)
qed

lemma bfs_relax:
  assumes f: "open_field n g s e" and i: "inv g s e X t" and b: "bfs_pass s e k t"
    and gk: "g_score t cur = Some (enat k)" and bc: "between s e cur"
    and adj: "adjacent cur nb" and ing: "in_grid g nb"
    and r: "relax e cur t nb = Inr t'"
  shows "bfs_pass s e k t'"
proof -
  have ib: "inv_bfs s e t" using b by (simp add: bfs_pass_def)
  have A: "\<And>p j. g_score t p = Some (enat j) \<Longrightarrow> j = md s p"
    using ib by (simp add: inv_bfs_def)
  have B: "\<And>y. y \<in> set (open_set t) \<Longrightarrow> fst (snd y) \<le> count t
            \<and> (between s e (snd (snd y)) \<longrightarrow> fst y \<le> enat (md s e))
            \<and> (\<not> between s e (snd (snd y)) \<longrightarrow> enat (md s e) < fst y)"
    using ib by (simp add: inv_bfs_def)
  have C: "distinct (map (fst \<circ> snd) (open_set t))" using ib by (simp add: inv_bfs_def)
  have O: "\<And>y z. y \<in> set (open_set t) \<Longrightarrow> z \<in> set (open_set t) \<Longrightarrow>
      between s e (snd (snd y)) \<Longrightarrow> between s e (snd (snd z)) \<Longrightarrow>
        (entry_less y z \<longrightarrow> md s (snd (snd y)) \<le> md s (snd (snd z)))
        \<and> md s (snd (snd z)) \<le> Suc (md s (snd (snd y)))"
    using ib unfolding inv_bfs_def by blast
  have Oa: "\<And>p q. origin_node t p = Some q \<Longrightarrow> adjacent q p"
    using ib unfolding inv_bfs_def by blast
  have Ob: "\<And>p. seen t p \<Longrightarrow> p \<noteq> s \<Longrightarrow> origin_node t p \<noteq> None"
    using ib unfolding inv_bfs_def by blast
  have R: "\<And>y. y \<in> set (open_set t) \<Longrightarrow> between s e (snd (snd y)) \<Longrightarrow>
      k \<le> md s (snd (snd y)) \<and> md s (snd (snd y)) \<le> Suc k"
    using b unfolding bfs_pass_def by blast
  have S: "\<And>p. between s e p \<Longrightarrow> md s p \<le> k \<Longrightarrow> seen t p"
    using b unfolding bfs_pass_def by blast
  have H: "\<And>p. seen t p \<Longrightarrow> p \<notin> open_set_hash t \<Longrightarrow> md s p \<le> k"
    using b unfolding bfs_pass_def by blast
  have iq: "inv_queue t" and isc: "inv_scores g s t" using i by (simp_all add: inv_def)
  have fr: "frame g (cells t)" using isc by (simp add: inv_scores_def)
  have kc: "k = md s cur" using A [OF gk] .
  have "g_score t nb \<noteq> None" using isc ing by (simp add: inv_scores_def)
  then obtain gn where gn: "g_score t nb = Some gn" by blast
  note eq = relax_seen_eq [OF gk gn, of e]
  show ?thesis
  proof (cases "seen t nb")
    case True
    then obtain j where j: "gn = enat j" using gn by (auto simp: seen_def)
    with A [of nb j] gn have "j = md s nb" by simp
    with md_adjacent [OF adj, of s] kc have "j \<le> Suc k" by auto
    with eq j r have "t' = t" by simp
    with b show ?thesis by simp
  next
    case False
    then have inf: "gn = \<infinity>" using gn by (cases gn) (simp_all add: seen_def)
    have nh: "nb \<notin> open_set_hash t" using iq False by (auto simp: inv_queue_def)
    have t': "t' = pushed e cur (enat (Suc k)) t nb" using eq r inf nh by simp
    have lev: "md s nb = Suc k"
    proof (rule ccontr)
      assume "md s nb \<noteq> Suc k"
      with md_adjacent [OF adj, of s] kc have c: "md s cur = Suc (md s nb)" by simp
      from between_closer [OF bc adj c] have "between s e nb" .
      from S [OF this] c kc have "seen t nb" by simp
      with False show False by contradiction
    qed
    define fv where "fv = new_f e (enat (Suc k)) t nb"
    have fv: "fv = enat (Suc k + md nb e)" unfolding fv_def using f fr ing by (rule new_f_open_field)
    have fb: "between s e nb \<Longrightarrow> fv = enat (md s e)"
      using lev by (simp add: fv between_def)
    have fnb: "\<not> between s e nb \<Longrightarrow> enat (md s e) < fv"
      using lev md_triangle [of s e nb] by (simp add: fv between_def)
    have os: "open_set t' = open_set t @ [(fv, count t + 1, nb)]" by (simp add: t' fv_def)
    have seen': "\<And>p. seen t' p \<longleftrightarrow> p = nb \<or> seen t p" by (simp add: t')
    have nl: "\<not> entry_less (fv, count t + 1, nb) y"
      if y: "y \<in> set (open_set t)" "between s e (snd (snd y))" "between s e nb" for y
    proof -
      from B [OF y(1)] y(2) have "fst (snd y) \<le> count t" "fst y \<le> enat (md s e)" by simp_all
      then show ?thesis using fb [OF y(3)] by (cases y) auto
    qed
    have ib': "inv_bfs s e t'"
      unfolding inv_bfs_def
    proof (intro conjI)
      show "\<forall>p j. g_score t' p = Some (enat j) \<longrightarrow> j = md s p"
        using A lev by (simp add: t')
      show "\<forall>y \<in> set (open_set t'). fst (snd y) \<le> count t'
            \<and> (between s e (snd (snd y)) \<longrightarrow> fst y \<le> enat (md s e))
            \<and> (\<not> between s e (snd (snd y)) \<longrightarrow> enat (md s e) < fst y)"
      proof
        fix y assume "y \<in> set (open_set t')"
        then consider "y \<in> set (open_set t)" | "y = (fv, count t + 1, nb)" by (auto simp: os)
        then show "fst (snd y) \<le> count t'
            \<and> (between s e (snd (snd y)) \<longrightarrow> fst y \<le> enat (md s e))
            \<and> (\<not> between s e (snd (snd y)) \<longrightarrow> enat (md s e) < fst y)"
        proof cases
          case 1
          with B [OF 1] show ?thesis by (simp add: t')
        next
          case 2
          then show ?thesis using fb fnb by (auto simp: t')
        qed
      qed
      show "distinct (map (fst \<circ> snd) (open_set t'))"
      proof -
        have "count t + 1 \<notin> set (map (fst \<circ> snd) (open_set t))"
        proof
          assume "count t + 1 \<in> set (map (fst \<circ> snd) (open_set t))"
          then obtain y where "y \<in> set (open_set t)" "fst (snd y) = count t + 1" by auto
          with B [OF this(1)] show False by simp
        qed
        with C show ?thesis by (simp add: os)
      qed
      show "\<forall>y \<in> set (open_set t'). \<forall>z \<in> set (open_set t').
            between s e (snd (snd y)) \<longrightarrow> between s e (snd (snd z)) \<longrightarrow>
              (entry_less y z \<longrightarrow> md s (snd (snd y)) \<le> md s (snd (snd z)))
              \<and> md s (snd (snd z)) \<le> Suc (md s (snd (snd y)))"
      proof (intro ballI impI)
        fix y z assume yz: "y \<in> set (open_set t')" "z \<in> set (open_set t')"
          and bty: "between s e (snd (snd y))" and btz: "between s e (snd (snd z))"
        from yz(1) consider (yo) "y \<in> set (open_set t)" | (yn) "y = (fv, count t + 1, nb)"
          by (auto simp: os)
        then show "(entry_less y z \<longrightarrow> md s (snd (snd y)) \<le> md s (snd (snd z)))
              \<and> md s (snd (snd z)) \<le> Suc (md s (snd (snd y)))"
        proof cases
          case yo
          from yz(2) consider (zo) "z \<in> set (open_set t)" | (zn) "z = (fv, count t + 1, nb)"
            by (auto simp: os)
          then show ?thesis
          proof cases
            case zo
            from O [OF yo zo bty btz] show ?thesis .
          next
            case zn
            with R [OF yo bty] lev show ?thesis by simp
          qed
        next
          case yn
          from yz(2) consider (zo) "z \<in> set (open_set t)" | (zn) "z = (fv, count t + 1, nb)"
            by (auto simp: os)
          then show ?thesis
          proof cases
            case zo
            have "between s e nb" using bty yn by simp
            from nl [OF zo btz this] R [OF zo btz] lev yn show ?thesis by simp
          next
            case zn
            with yn show ?thesis by simp
          qed
        qed
      qed
      show "\<forall>p q. origin_node t' p = Some q \<longrightarrow> adjacent q p"
        using Oa adj by (auto simp: t')
      show "\<forall>p. seen t' p \<longrightarrow> p \<noteq> s \<longrightarrow> origin_node t' p \<noteq> None"
        using Ob by (auto simp: seen') (auto simp: t')
    qed
    show ?thesis
      unfolding bfs_pass_def
    proof (intro conjI)
      show "inv_bfs s e t'" by (rule ib')
      show "\<forall>y \<in> set (open_set t'). between s e (snd (snd y)) \<longrightarrow>
            k \<le> md s (snd (snd y)) \<and> md s (snd (snd y)) \<le> Suc k"
        using R lev by (auto simp: os)
      show "\<forall>p. between s e p \<longrightarrow> md s p \<le> k \<longrightarrow> seen t' p"
        using S by (simp add: seen')
      show "\<forall>p. seen t' p \<longrightarrow> p \<notin> open_set_hash t' \<longrightarrow> md s p \<le> k"
        using H by (auto simp: seen') (auto simp: t')
    qed
  qed
qed

lemma bfs_for_each:
  assumes f: "open_field n g s e" and i: "inv g s e X t" and b: "bfs_pass s e k t"
    and gk: "g_score t cur = Some (enat k)" and bc: "between s e cur" and cg: "in_grid g cur"
    and ns: "\<forall>q \<in> set ns. adjacent cur q \<and> in_grid g q"
    and r: "for_each (relax e cur) ns t = Inr t2"
  shows "bfs_pass s e k t2"
  using i b gk ns r
proof (induction ns arbitrary: t)
  case Nil
  then show ?case by simp
next
  case (Cons nb ns)
  have nb: "adjacent cur nb" "in_grid g nb" using Cons.prems(4) by simp_all
  then have nbn: "nb \<in> set (neighbors (node_at g cur))"
    using open_field_neighbors [OF f cg] by simp
  from relax_inv [OF Cons.prems(1,3) nbn nb(2)] obtain t1 where
    t1: "relax e cur t nb = Inr t1" "inv g s e X t1" "relaxed_to g cur k t t1"
    by blast
  have b1: "bfs_pass s e k t1"
    using f Cons.prems(1,2,3) bc nb t1(1) by (rule bfs_relax)
  have g1: "g_score t1 cur = Some (enat k)" using t1(3) by (simp add: relaxed_to_def)
  have "for_each (relax e cur) ns t1 = Inr t2" using Cons.prems(5) t1(1) by simp
  with Cons.IH [OF t1(2) b1 g1] Cons.prems(4) show ?case by simp
qed

lemma open_field_closed: "open_field n g s e \<Longrightarrow> closed_graph g"
  by (simp add: open_field_def grid_graph_closed)

lemma bfs_step:
  assumes f: "open_field n g s e" and i: "inv g s e {} st" and b: "bfs_head s e st"
    and ne: "open_set st \<noteq> []" and step: "astar_step s e [] st = Continue st'"
  shows "bfs_head s e st'"
proof -
  define cur where "cur = snd (snd (pop_item st))"
  define k where "k = md s cur"
  note p = inv_popped [OF i ne, folded cur_def]
  note bp = bfs_pop [OF f i b ne, folded cur_def, folded k_def]
  have isc: "inv_scores g s st" using i by (simp add: inv_def)
  have cgr: "in_grid g cur" using isc p(2) by (rule seen_in_grid)
  from pass_inv [OF open_field_closed [OF f] i ne, folded cur_def] obtain st2 where
    st2: "for_each (relax e cur) (neighbors (node_at (cells (popped_state st)) cur))
            (popped_state st) = Inr st2"
      "inv g s e {cur} st2" "\<forall>q \<in> set (neighbors (node_at g cur)). seen st2 q"
      "cur \<notin> open_set_hash st2"
    by blast
  from step p(1) st2(1) have ce: "cur \<noteq> e" and st': "st' = closed_state s e cur st2"
    unfolding astar_step_unfold [OF ne] cur_def [symmetric]
    by (auto split: if_splits)
  have nl: "neighbors (node_at (cells (popped_state st)) cur) = neighbors (node_at g cur)"
    using isc by (simp add: inv_scores_def frame_def)
  have nsa: "\<forall>q \<in> set (neighbors (node_at (cells (popped_state st)) cur)).
      adjacent cur q \<and> in_grid g q"
    unfolding nl using open_field_neighbors [OF f cgr] by simp
  have gk: "g_score (popped_state st) cur = Some (enat k)" using bp(2) by simp
  have b2: "bfs_pass s e k st2"
    using f p(3) bp(3) gk bp(1) cgr nsa st2(1) by (rule bfs_for_each)
  have ib: "inv_bfs s e st2" using b2 by (simp add: bfs_pass_def)
  have R: "\<And>y. y \<in> set (open_set st2) \<Longrightarrow> between s e (snd (snd y)) \<Longrightarrow>
      k \<le> md s (snd (snd y)) \<and> md s (snd (snd y)) \<le> Suc k"
    using b2 unfolding bfs_pass_def by blast
  have S: "\<And>p. between s e p \<Longrightarrow> md s p \<le> k \<Longrightarrow> seen st2 p"
    using b2 unfolding bfs_pass_def by blast
  have H: "\<And>p. seen st2 p \<Longrightarrow> p \<notin> open_set_hash st2 \<Longrightarrow> md s p \<le> k"
    using b2 unfolding bfs_pass_def by blast
  have ib': "inv_bfs s e st'" using ib by (simp add: inv_bfs_def st')
  have E': "\<forall>x \<in> set (open_set st'). between s e (snd (snd x)) \<longrightarrow>
            (\<forall>p. between s e p \<longrightarrow> md s p < md s (snd (snd x)) \<longrightarrow> seen st' p)"
  proof (intro ballI impI allI)
    fix x p assume "x \<in> set (open_set st')" "between s e (snd (snd x))" "between s e p"
      "md s p < md s (snd (snd x))"
    with R [of x] have "md s p \<le> k" by (simp add: st')
    with S \<open>between s e p\<close> show "seen st' p" by (simp add: st')
  qed
  have H': "\<forall>p. seen st' p \<longrightarrow> p \<notin> open_set_hash st' \<longrightarrow>
            (\<forall>x \<in> set (open_set st'). between s e (snd (snd x)) \<longrightarrow> md s p \<le> md s (snd (snd x)))"
  proof (intro ballI impI allI)
    fix x p assume "seen st' p" "p \<notin> open_set_hash st'" "x \<in> set (open_set st')"
      "between s e (snd (snd x))"
    with R [of x] H [of p] show "md s p \<le> md s (snd (snd x))" by (simp add: st')
  qed
  have L': "\<exists>x \<in> set (open_set st'). between s e (snd (snd x))"
  proof -
    have cb: "fst cur < n" "snd cur < n"
      using f cgr well_formed_in_grid [of n g cur] by (simp_all add: open_field_def)
    from toward_end [OF bp(1) ce cb open_field_bounds(3,4) [OF f]] obtain nb where
      nb: "adjacent cur nb" "between s e nb" "md s nb = Suc (md s cur)" by blast
    have "in_grid g nb" using f nb(2) by (rule between_in_grid)
    with nb(1) have "nb \<in> set (neighbors (node_at g cur))"
      using open_field_neighbors [OF f cgr] by simp
    with st2(3) have sn: "seen st2 nb" by blast
    have "nb \<in> open_set_hash st2"
    proof (rule ccontr)
      assume "nb \<notin> open_set_hash st2"
      from H [OF sn this] nb(3) show False by (simp add: k_def)
    qed
    moreover have "set (map (snd \<circ> snd) (open_set st2)) = open_set_hash st2"
      using st2(2) by (simp add: inv_def inv_queue_def)
    ultimately have "nb \<in> (snd \<circ> snd) ` set (open_set st2)" by simp
    then obtain x where "x \<in> set (open_set st2)" "snd (snd x) = nb"
      unfolding image_iff by force
    with nb(2) show ?thesis by (auto simp: st')
  qed
  show ?thesis using ib' E' H' L' by (simp add: bfs_head_def)
qed

lemma bfs_initial: "bfs_head s e (initial_state g s e)"
proof -
  have seen0: "\<And>p. seen (initial_state g s e) p \<longleftrightarrow> p = s"
    by (auto simp: seen_def initial_state_def zero_enat_def)
  have g0: "\<And>p k. g_score (initial_state g s e) p = Some (enat k) \<Longrightarrow> p = s \<and> k = 0"
    by (auto simp: initial_state_def zero_enat_def split: if_splits)
  have "inv_bfs s e (initial_state g s e)"
    unfolding inv_bfs_def
  proof (intro conjI)
    show "\<forall>p k. g_score (initial_state g s e) p = Some (enat k) \<longrightarrow> k = md s p"
    proof (intro allI impI)
      fix p k assume "g_score (initial_state g s e) p = Some (enat k)"
      from g0 [OF this] show "k = md s p" by simp
    qed
  qed (simp_all add: seen0, simp_all add: initial_state_def zero_enat_def)
  then show ?thesis
    by (simp add: bfs_head_def seen0) (simp add: initial_state_def)
qed

lemma chain_length:
  assumes isc: "inv_scores g s st" and ib: "inv_bfs s e st"
    and "seen st p" and "follows (origin_node st) p ms"
  shows "length ms = md s p \<and> walk p ms \<and> (ms \<noteq> [] \<longrightarrow> last ms = s)"
  using assms(3,4)
proof (induction ms arbitrary: p)
  case Nil
  then have "origin_node st p = None" by simp
  with ib Nil.prems(1) have "p = s" unfolding inv_bfs_def by blast
  then show ?case by simp
next
  case (Cons q ms)
  then have o: "origin_node st p = Some q" and fo: "follows (origin_node st) q ms" by simp_all
  from isc o obtain a b where ab: "g_score st p = Some (enat a)" "g_score st q = Some (enat b)"
    "b < a"
    unfolding inv_scores_def by blast
  have A: "\<And>p j. g_score st p = Some (enat j) \<Longrightarrow> j = md s p"
    using ib by (simp add: inv_bfs_def)
  have adj: "adjacent q p" using ib o unfolding inv_bfs_def by blast
  have sq: "seen st q" using ab(2) by (auto simp: seen_def)
  from Cons.IH [OF sq fo] have IH: "length ms = md s q" "walk q ms" "ms \<noteq> [] \<longrightarrow> last ms = s"
    by simp_all
  have "md s q < md s p" using A [OF ab(1)] A [OF ab(2)] ab(3) by simp
  with md_adjacent [OF adj, of s] have "md s p = Suc (md s q)" by auto
  moreover have "adjacent p q" using adj by (auto simp: adjacent_def)
  moreover have "ms = [] \<Longrightarrow> q = s" using IH(1) by (simp add: md_eq_0)
  ultimately show ?case using IH by auto
qed

lemma open_fieldI:
  assumes "well_formed n g" and "neighbors_current g" and "no_barriers g"
    and "in_grid g s" and "in_grid g e"
  shows "open_field n g s e"
proof -
  have "grid_graph g" using assms(1,2) by (rule grid_graph_current)
  moreover have "\<forall>p. in_grid g p \<longrightarrow> \<not> is_barrier (node_at g p)"
    using assms(3) by (simp add: no_barriers_def list_all_iff set_all_refs)
  ultimately show ?thesis using assms(1,4,5) by (simp add: open_field_def)
qed

text \<open>
  C1. On a well-formed grid without barriers whose neighbour lists are current, with
  distinct start and end nodes, a run without stopping event returns at line 300 (the path
  is found), and the nodes that \<^verbatim>\<open>reconstruct_path\<close> marks are a sequence of adjacent
  places from the end node to the start node whose number, the number of steps of the
  path, is the Manhattan distance of the positions of start and end.
\<close>

theorem empty_grid_shortest_path:
  assumes "well_formed n g" and "neighbors_current g" and "no_barriers g"
    and "in_grid g s" and "in_grid g e" and "s \<noteq> e"
    and "\<forall>evs \<in> set polls. \<not> list_ex stops_search evs"
  shows "\<exists>res. generate_path g (Some s) (Some e) polls = Some (Inr res)
           \<and> outcome res = Found
           \<and> int (length (path res))
               = manhattan_distance (get_pos (node_at g s)) (get_pos (node_at g e))
           \<and> walk e (path res) \<and> last (path res) = s"
proof -
  have f: "open_field n g s e" using assms(1-5) by (rule open_fieldI)
  have js: "\<And>st st'. inv g s e {} st \<Longrightarrow> bfs_head s e st \<Longrightarrow> open_set st \<noteq> []
      \<Longrightarrow> astar_step s e [] st = Continue st' \<Longrightarrow> bfs_head s e st'"
    by (rule bfs_step [OF f])
  have "\<exists>res. astar_loop s e polls (initial_state g s e) = Some (Inr res) \<and>
           ((outcome res = Exhausted \<and> path res = [] \<and> open_set (final res) = []
               \<and> inv g s e {} (final res) \<and> bfs_head s e (final res))
            \<or> (outcome res = Found \<and>
                 (\<exists>st. inv g s e {} st \<and> bfs_head s e st \<and> open_set st \<noteq> []
                    \<and> snd (snd (pop_item st)) = e \<and> follows (origin_node st) e (path res)
                    \<and> final res = (popped_state st)\<lparr>cells := paint make_start s (paint make_end e
                            (fold (paint make_path) (path res) (cells st)))\<rparr>)))"
    using open_field_closed [OF f] assms(7) inv_initial [OF assms(4)] bfs_initial js
    by (rule astar_loop_total)
  then obtain res where res: "astar_loop s e polls (initial_state g s e) = Some (Inr res)"
    and alt: "(outcome res = Exhausted \<and> open_set (final res) = [] \<and> bfs_head s e (final res))
            \<or> (outcome res = Found \<and>
                 (\<exists>st. inv g s e {} st \<and> bfs_head s e st \<and> open_set st \<noteq> []
                    \<and> snd (snd (pop_item st)) = e \<and> follows (origin_node st) e (path res)))"
    by blast
  have "\<not> (open_set (final res) = [] \<and> bfs_head s e (final res))"
    by (auto simp: bfs_head_def)
  with alt obtain st where fo: "outcome res = Found" and st: "inv g s e {} st" "bfs_head s e st"
    "open_set st \<noteq> []" "snd (snd (pop_item st)) = e" "follows (origin_node st) e (path res)"
    by blast
  have se: "seen st e" using inv_popped(2) [OF st(1,3)] st(4) by simp
  have isc: "inv_scores g s st" using st(1) by (simp add: inv_def)
  have ib: "inv_bfs s e st" using st(2) by (simp add: bfs_head_def)
  from chain_length [OF isc ib se st(5)]
  have cl: "length (path res) = md s e" "walk e (path res)" "path res \<noteq> [] \<longrightarrow> last (path res) = s"
    by simp_all
  have "md s e \<noteq> 0" using assms(6) by (simp add: md_eq_0)
  with cl(1,3) have la: "last (path res) = s" by auto
  have "get_pos (node_at g s) = (int (fst s), int (snd s))"
    "get_pos (node_at g e) = (int (fst e), int (snd e))"
    using well_formed_fields [OF assms(1)] assms(4,5) by (simp_all add: get_pos_def)
  then have "manhattan_distance (get_pos (node_at g s)) (get_pos (node_at g e)) = int (md s e)"
    by (simp add: md_alt)
  with res fo cl la show ?thesis by (simp add: generate_path_def)
qed

theorem empty_grid_shortest_path_witness:
  "well_formed 3 open_grid \<and> neighbors_current open_grid \<and> no_barriers open_grid
   \<and> in_grid open_grid (0, 0) \<and> in_grid open_grid (2, 2) \<and> (0, 0) \<noteq> ((2, 2) :: ref)
   \<and> \<not> list_ex stops_search [OTHER]
   \<and> manhattan_distance (get_pos (node_at open_grid (0, 0))) (get_pos (node_at open_grid (2, 2)))
       = 4
   \<and> (\<exists>res. generate_path open_grid (Some (0, 0)) (Some (2, 2)) [[OTHER]] = Some (Inr res)
         \<and> outcome res = Found \<and> length (path res) = 4 \<and> last (path res) = (0, 0))"
proof -
  have 1: "well_formed 3 open_grid" by code_simp
  have 2: "neighbors_current open_grid" by code_simp
  have 3: "no_barriers open_grid" by code_simp
  have 4: "in_grid open_grid (0, 0)" by code_simp
  have 5: "in_grid open_grid (2, 2)" by code_simp
  have 6: "(0, 0) \<noteq> ((2, 2) :: ref)" by simp
  have 7: "\<forall>evs \<in> set [[OTHER]]. \<not> list_ex stops_search evs" by simp
  have 8: "manhattan_distance (get_pos (node_at open_grid (0, 0)))
      (get_pos (node_at open_grid (2, 2))) = 4"
    by code_simp
  from empty_grid_shortest_path [OF 1 2 3 4 5 6 7] obtain res where
    "generate_path open_grid (Some (0, 0)) (Some (2, 2)) [[OTHER]] = Some (Inr res)"
    "outcome res = Found"
    "int (length (path res)) = manhattan_distance (get_pos (node_at open_grid (0, 0)))
      (get_pos (node_at open_grid (2, 2)))"
    "last (path res) = (0, 0)"
    by blast
  with 8 have "\<exists>res. generate_path open_grid (Some (0, 0)) (Some (2, 2)) [[OTHER]] = Some (Inr res)
         \<and> outcome res = Found \<and> length (path res) = 4 \<and> last (path res) = (0, 0)"
    by auto
  with 1 2 3 4 5 8 show ?thesis by simp
qed

section \<open>The queue never compares two nodes\<close>

text \<open>
  In every run the items of the queue have different counts, so the item that \<^verbatim>\<open>get\<close>
  returns is below every other item by its first two components alone: the comparison
  of nodes, \<^verbatim>\<open>Node.__lt__\<close>, never decides.
\<close>

lemma counts_ok_initial: "counts_ok (initial_state g s e)"
  by (simp add: counts_ok_def initial_state_def)

lemma counts_ok_relax:
  assumes "counts_ok t" and "relax e cur t nb = Inr t'"
  shows "counts_ok t'"
proof -
  have "\<not> (g_score t cur = None \<or> g_score t nb = None)"
  proof
    assume "g_score t cur = None \<or> g_score t nb = None"
    from relax_KeyError [OF this, of e] assms(2) show False by simp
  qed
  then obtain gc gn where g: "g_score t cur = Some gc" "g_score t nb = Some gn"
    by auto
  have "count t + 1 \<notin> set (map (fst \<circ> snd) (open_set t))"
    using assms(1) by (fastforce simp: counts_ok_def)
  then have "counts_ok (pushed e cur (gc + 1) t nb)"
    using assms(1) by (auto simp: counts_ok_def)
  moreover have "counts_ok (improved e cur (gc + 1) t nb)"
    using assms(1) by (simp add: counts_ok_def)
  ultimately show ?thesis using assms relax_eq [OF g, of e] by (auto split: if_splits)
qed

lemma counts_ok_for_each:
  "counts_ok t \<Longrightarrow> for_each (relax e cur) ns t = Inr t' \<Longrightarrow> counts_ok t'"
proof (induction ns arbitrary: t)
  case Nil
  then show ?case by simp
next
  case (Cons nb ns)
  then obtain t1 where t1: "relax e cur t nb = Inr t1" "for_each (relax e cur) ns t1 = Inr t'"
    by (auto split: sum.splits)
  from Cons.IH [OF counts_ok_relax [OF Cons.prems(1) t1(1)] t1(2)] show ?case .
qed

lemma counts_ok_step:
  assumes "counts_ok st" and "open_set st \<noteq> []" and "astar_step s e [] st = Continue st'"
  shows "counts_ok st'"
proof -
  have p: "counts_ok (popped_state st)"
    using assms(1) remove1_map_distinct [OF _ pop_item_in [OF assms(2)], of "fst \<circ> snd"]
      set_remove1_subset [of "pop_item st" "open_set st"]
    by (auto simp: counts_ok_def)
  from assms(3) obtain st2 where
    "for_each (relax e (snd (snd (pop_item st))))
       (neighbors (node_at (cells (popped_state st)) (snd (snd (pop_item st)))))
       (popped_state st) = Inr st2"
    "st' = closed_state s e (snd (snd (pop_item st))) st2"
    unfolding astar_step_unfold [OF assms(2)] by (auto split: if_splits sum.splits)
  with counts_ok_for_each [OF p this(1)] show ?thesis by (simp add: counts_ok_def)
qed

lemma pop_item_strictly_least:
  assumes "counts_ok st" and "open_set st \<noteq> []"
  shows "\<forall>y \<in> set (open_set st). y \<noteq> pop_item st \<longrightarrow> entry_less (pop_item st) y"
proof (intro ballI impI)
  fix y assume y: "y \<in> set (open_set st)" "y \<noteq> pop_item st"
  have "inj_on (fst \<circ> snd) (set (open_set st))"
    using assms(1) by (simp add: counts_ok_def distinct_map)
  with y pop_item_in [OF assms(2)] have "fst (snd (pop_item st)) \<noteq> fst (snd y)"
    by (auto simp: inj_on_def)
  then show "entry_less (pop_item st) y"
    using entry_less_total [of "pop_item st" y] pop_item_least [OF assms(2)] y(1) by blast
qed

end
